theory Spec2Isabelle
  imports Complex_Main "HOL-Library.Log_Nat"
begin

section \<open>Animation timing (class Animation)\<close>

text \<open>
  JavaScript numbers are binary64 floating-point numbers. The arithmetic of \<open>getSubAlpha\<close>
  is given twice. \<open>getSubAlpha\<close> reads the products, sums and comparisons of alpha, the
  lag ratio and the node indices over \<open>\<real>\<close>; this is the computation of the source
  wherever no operation rounds, as with the lag ratios 0 and \<open>0.5\<close>.
  \<open>getSubAlpha_binary64\<close> (below, after the model of binary64) rounds every operation
  and has the infinities and NaN; it is the computation of the source for every lag
  ratio. Node indices and node counts are array indices, hence natural numbers.
\<close>

record animation =
  rateFunc :: "real \<Rightarrow> real"
  lagRatio :: real
  runtime :: real

text \<open>
  \<open>Animation.getSubAlpha(alpha, index, numSubmobjects)\<close>. The \<open>console.assert\<close> on
  \<open>0 <= alpha <= 1\<close> only logs, so it is no branch of the model.
\<close>

definition getSubAlpha :: "animation \<Rightarrow> real \<Rightarrow> nat \<Rightarrow> nat \<Rightarrow> real" where
  "getSubAlpha anim alpha index numSubmobjects =
     (let fullRuntime = (real numSubmobjects - 1) * lagRatio anim + 1;
          fullRuntimeAlpha = fullRuntime * alpha;
          startTime = lagRatio anim * real index;
          endTime = startTime + 1
      in if fullRuntimeAlpha \<le> startTime then 0
         else if endTime \<le> fullRuntimeAlpha then 1
         else fullRuntimeAlpha - startTime)"

text \<open>
  \<open>Animation.interpolateMobject(alpha)\<close>: the loop over the argument lists computed by
  \<open>getAllArgsToInterpolateSubmobject\<close>. The variant's per-node step
  \<open>interpolateSubmobject\<close> is a parameter; every call mutates the node of its own
  argument list, so the effect of the loop is the list of the steps' results, in order.
\<close>

definition interpolateMobject ::
    "animation \<Rightarrow> (real \<Rightarrow> 'a \<Rightarrow> 'b) \<Rightarrow> 'a list \<Rightarrow> real \<Rightarrow> 'b list" where
  "interpolateMobject anim interpolateSubmobject interpolateSubmobjectArgs alpha =
     map (\<lambda>i. interpolateSubmobject
                 (getSubAlpha anim alpha i (length interpolateSubmobjectArgs))
                 (interpolateSubmobjectArgs ! i))
         [0 ..< length interpolateSubmobjectArgs]"

text \<open>\<open>Animation.interpolate(alpha)\<close>: clamp, ease, dispatch.\<close>

definition interpolate ::
    "animation \<Rightarrow> (real \<Rightarrow> 'a \<Rightarrow> 'b) \<Rightarrow> 'a list \<Rightarrow> real \<Rightarrow> 'b list" where
  "interpolate anim interpolateSubmobject interpolateSubmobjectArgs alpha =
     (let alpha' = (if alpha < 0 then 0 else if alpha > 1 then 1 else alpha)
      in interpolateMobject anim interpolateSubmobject interpolateSubmobjectArgs
           (rateFunc anim alpha'))"

definition isFinished :: "real \<Rightarrow> bool" where
  "isFinished alpha = (alpha \<ge> 1)"

subsection \<open>Binary64 numbers\<close>

text \<open>
  A JavaScript number is a finite binary64 value, an infinity or NaN. The finite values
  are the reals \<open>m * 2^k\<close> with \<open>|m| < 2^53\<close> and \<open>-1074 \<le> k \<le> 971\<close>. The two zeros
  are not told apart: they compare equal, and no result below depends on the sign of a
  zero.
\<close>

datatype number = Num real | PosInfinity | NegInfinity | NaN

text \<open>Rounding to the nearest integer, a tie going to the even one.\<close>

definition rne :: "real \<Rightarrow> int" where
  "rne q =
     (let n = \<lfloor>q\<rfloor>; r = q - of_int n
      in if r < 1 / 2 then n
         else if 1 / 2 < r then n + 1
         else if even n then n else n + 1)"

text \<open>
  The exponent of the binade of a positive real \<open>x\<close>: the integer \<open>e\<close> with
  \<open>2^e \<le> x < 2^(e+1)\<close>, but at least \<open>-1022\<close> (below \<open>2^-1022\<close> the numbers are
  subnormal and share the spacing of the least binade). \<open>bitlen\<close> is the number of
  binary digits of an integer.
\<close>

definition binade :: "real \<Rightarrow> int" where
  "binade x =
     max (- 1022) (if 1 \<le> x then bitlen \<lfloor>x\<rfloor> - 1 else - bitlen (\<lceil>1 / x\<rceil> - 1))"

text \<open>The spacing of the binary64 values in the binade of \<open>x\<close> (53 significant bits).\<close>

definition ulp :: "real \<Rightarrow> real" where
  "ulp x = 2 powi (binade x - 52)"

text \<open>
  Rounding of a real to the nearest multiple of the spacing of its binade, ties to even
  (the rounding of every binary64 operation), and the result of an operation whose exact
  value is \<open>x\<close>: a rounded value of magnitude \<open>2^1024\<close> or more overflows to an infinity.
\<close>

definition round64 :: "real \<Rightarrow> real" where
  "round64 x = sgn x * (of_int (rne (\<bar>x\<bar> / ulp \<bar>x\<bar>)) * ulp \<bar>x\<bar>)"

definition fl :: "real \<Rightarrow> number" where
  "fl x =
     (let y = round64 x
      in if 2 powi 1024 \<le> y then PosInfinity
         else if y \<le> - (2 powi 1024) then NegInfinity
         else Num y)"

text \<open>The operators \<open>+\<close>, unary \<open>-\<close>, binary \<open>-\<close>, \<open>*\<close>, \<open>/\<close> and \<open><=\<close> on numbers.\<close>

fun js_add :: "number \<Rightarrow> number \<Rightarrow> number" where
  "js_add NaN _ = NaN"
| "js_add _ NaN = NaN"
| "js_add PosInfinity NegInfinity = NaN"
| "js_add NegInfinity PosInfinity = NaN"
| "js_add PosInfinity _ = PosInfinity"
| "js_add _ PosInfinity = PosInfinity"
| "js_add NegInfinity _ = NegInfinity"
| "js_add _ NegInfinity = NegInfinity"
| "js_add (Num a) (Num b) = fl (a + b)"

fun js_negate :: "number \<Rightarrow> number" where
  "js_negate (Num a) = Num (- a)"
| "js_negate PosInfinity = NegInfinity"
| "js_negate NegInfinity = PosInfinity"
| "js_negate NaN = NaN"

definition js_subtract :: "number \<Rightarrow> number \<Rightarrow> number" where
  "js_subtract a b = js_add a (js_negate b)"

fun js_sign :: "number \<Rightarrow> real" where
  "js_sign (Num a) = sgn a"
| "js_sign PosInfinity = 1"
| "js_sign NegInfinity = - 1"
| "js_sign NaN = 0"

text \<open>
  A product with an infinity is NaN if the other factor is zero or NaN, and else the
  infinity of the product of the signs.
\<close>

fun js_multiply :: "number \<Rightarrow> number \<Rightarrow> number" where
  "js_multiply (Num a) (Num b) = fl (a * b)"
| "js_multiply a b =
     (if js_sign a * js_sign b = 0 then NaN
      else if 0 < js_sign a * js_sign b then PosInfinity
      else NegInfinity)"

fun js_le :: "number \<Rightarrow> number \<Rightarrow> bool" where
  "js_le NaN _ = False"
| "js_le _ NaN = False"
| "js_le NegInfinity _ = True"
| "js_le _ PosInfinity = True"
| "js_le (Num a) (Num b) = (a \<le> b)"
| "js_le _ _ = False"

text \<open>The quotient of two finite numbers; division by zero does not raise.\<close>

definition js_divide :: "real \<Rightarrow> real \<Rightarrow> number" where
  "js_divide a b =
     (if b \<noteq> 0 then fl (a / b)
      else if a > 0 then PosInfinity
      else if a < 0 then NegInfinity
      else NaN)"

fun Math_min :: "number \<Rightarrow> number \<Rightarrow> number" where
  "Math_min NaN _ = NaN"
| "Math_min _ NaN = NaN"
| "Math_min NegInfinity _ = NegInfinity"
| "Math_min _ NegInfinity = NegInfinity"
| "Math_min PosInfinity b = b"
| "Math_min a PosInfinity = a"
| "Math_min (Num a) (Num b) = Num (min a b)"

fun is_finite :: "number \<Rightarrow> bool" where
  "is_finite (Num _) = True"
| "is_finite _ = False"

subsection \<open>getSubAlpha in binary64\<close>

text \<open>
  \<open>Animation.getSubAlpha(alpha, index, numSubmobjects)\<close> with the operations of
  binary64, line by line. The first argument is \<open>this.lagRatio\<close>. \<open>numSubmobjects\<close> and
  \<open>index\<close> are an array length and an array index, integers that binary64 holds
  exactly, as it does the difference \<open>numSubmobjects - 1\<close>. The literals 0 and 1 are
  exact.
\<close>

definition getSubAlpha_binary64 :: "number \<Rightarrow> number \<Rightarrow> nat \<Rightarrow> nat \<Rightarrow> number" where
  "getSubAlpha_binary64 this_lagRatio alpha index numSubmobjects =
     (let fullRuntime = js_add (js_multiply (Num (real numSubmobjects - 1)) this_lagRatio) (Num 1);
          fullRuntimeAlpha = js_multiply fullRuntime alpha;
          startTime = js_multiply this_lagRatio (Num (real index));
          endTime = js_add startTime (Num 1)
      in if js_le fullRuntimeAlpha startTime then Num 0
         else if js_le endTime fullRuntimeAlpha then Num 1
         else js_subtract fullRuntimeAlpha startTime)"

text \<open>The loop of \<open>Animation.interpolateMobject(alpha)\<close> over these sub-alphas.\<close>

definition interpolateMobject_binary64 ::
    "number \<Rightarrow> (number \<Rightarrow> 'a \<Rightarrow> 'b) \<Rightarrow> 'a list \<Rightarrow> number \<Rightarrow> 'b list" where
  "interpolateMobject_binary64 this_lagRatio interpolateSubmobject interpolateSubmobjectArgs alpha =
     map (\<lambda>i. interpolateSubmobject
                 (getSubAlpha_binary64 this_lagRatio alpha i (length interpolateSubmobjectArgs))
                 (interpolateSubmobjectArgs ! i))
         [0 ..< length interpolateSubmobjectArgs]"

subsection \<open>Defaults of the Write variant\<close>

text \<open>
  \<open>Write.setConfigFromLength(length)\<close>. \<open>null\<close> is \<open>None\<close>. The test \<open>if (length)\<close>
  is false exactly for the length 0. The quotient \<open>4 / length\<close> is computed for every
  length, and the literal \<open>0.2\<close> is the binary64 value nearest to \<open>2/10\<close>.
\<close>

record write_config =
  write_runtime :: "number option"
  write_lagRatio :: "number option"

text \<open>The subexpression \<open>4 / length\<close> of \<open>setConfigFromLength\<close>.\<close>

definition lagRatioQuotient :: "nat \<Rightarrow> number" where
  "lagRatioQuotient len = js_divide 4 (real len)"

definition setConfigFromLength :: "nat \<Rightarrow> write_config \<Rightarrow> write_config" where
  "setConfigFromLength len cfg =
     (let cfg1 = (if write_runtime cfg = None
                  then (if len \<noteq> 0 then cfg\<lparr>write_runtime := Some (Num 1)\<rparr>
                        else cfg\<lparr>write_runtime := Some (Num 2)\<rparr>)
                  else cfg)
      in if write_lagRatio cfg1 = None
         then cfg1\<lparr>write_lagRatio := Some (Math_min (lagRatioQuotient len) (fl (2 / 10)))\<rparr>
         else cfg1)"

text \<open>
  The constructor of \<open>Write\<close>: the configuration is completed from the length of the
  target's hierarchy when either argument is \<open>null\<close>. The first parameter of the
  model is that length, \<open>mobject.getMobjectHeirarchy().length\<close>.
\<close>

definition Write_constructor :: "nat \<Rightarrow> number option \<Rightarrow> number option \<Rightarrow> write_config" where
  "Write_constructor hierarchyLength rt lr =
     (let cfg = \<lparr>write_runtime = rt, write_lagRatio = lr\<rparr>
      in if rt = None \<or> lr = None then setConfigFromLength hierarchyLength cfg else cfg)"

section \<open>Paths, styles and mobjects (class Group)\<close>

text \<open>
  A \<open>Two.Anchor\<close> has a position, a left and a right control point, a command tag and a
  \<open>relative\<close> flag. A \<open>Two.Path\<close> is modelled by what the animation code reads and writes:
  its vertices and its \<open>closed\<close> flag. Positions are pairs of reals.
\<close>

type_synonym point = "real \<times> real"

record anchor =
  position :: point
  controls_left :: point
  controls_right :: point
  command :: string
  relative :: bool

record path =
  vertices :: "anchor list"
  closed_path :: bool

text \<open>
  The style dictionary of \<open>getStyleDict\<close>. A colour is kept apart from its opacity:
  \<open>applyStyle\<close> composes them with \<open>chroma(color).alpha(opacity)\<close> and \<open>getStyleDict\<close>
  takes them apart again; the model stores the two components exactly. \<open>WHITE\<close> and
  \<open>BLACK\<close> are the colours of \<open>constants.js\<close> that \<open>DEFAULT_STYLE\<close> names.
\<close>

datatype color = WHITE | BLACK | Hex string

record style =
  strokeColor :: color
  strokeOpacity :: real
  fillColor :: color
  fillOpacity :: real
  strokeWidth :: real

definition DEFAULT_STYLE :: style where
  "DEFAULT_STYLE =
     \<lparr>strokeColor = WHITE, strokeOpacity = 1, fillColor = BLACK, fillOpacity = 0,
      strokeWidth = 4\<rparr>"

text \<open>A style argument is a dictionary with any of the five keys.\<close>

record style_update =
  new_strokeColor :: "color option"
  new_strokeOpacity :: "real option"
  new_fillColor :: "color option"
  new_fillOpacity :: "real option"
  new_strokeWidth :: "real option"

definition empty_update :: style_update where
  "empty_update =
     \<lparr>new_strokeColor = None, new_strokeOpacity = None, new_fillColor = None,
      new_fillOpacity = None, new_strokeWidth = None\<rparr>"

definition whole_update :: "style \<Rightarrow> style_update" where
  "whole_update st =
     \<lparr>new_strokeColor = Some (strokeColor st), new_strokeOpacity = Some (strokeOpacity st),
      new_fillColor = Some (fillColor st), new_fillOpacity = Some (fillOpacity st),
      new_strokeWidth = Some (strokeWidth st)\<rparr>"

text \<open>\<open>Object.assign(this.getStyleDict(), style)\<close>: the keys of the argument win.\<close>

definition Object_assign :: "style \<Rightarrow> style_update \<Rightarrow> style" where
  "Object_assign st su =
     \<lparr>strokeColor = (case new_strokeColor su of None \<Rightarrow> strokeColor st | Some c \<Rightarrow> c),
      strokeOpacity = (case new_strokeOpacity su of None \<Rightarrow> strokeOpacity st | Some v \<Rightarrow> v),
      fillColor = (case new_fillColor su of None \<Rightarrow> fillColor st | Some c \<Rightarrow> c),
      fillOpacity = (case new_fillOpacity su of None \<Rightarrow> fillOpacity st | Some v \<Rightarrow> v),
      strokeWidth = (case new_strokeWidth su of None \<Rightarrow> strokeWidth st | Some v \<Rightarrow> v)\<rparr>"

text \<open>
  A mobject is a \<open>Two.Group\<close> whose \<open>children[0]\<close> is its own path and whose
  \<open>children.slice(1)\<close> are its submobjects; every constructor of the source builds this
  shape. \<open>familyProto\<close> says that the object's prototype is that of \<open>Group\<close>,
  \<open>TexMobject\<close> or \<open>TextMobject\<close>, the three for which \<open>applyStyle\<close> styles the
  submobjects instead of the object. The two trees handed to the alignment are distinct
  objects that share no node (the caller aligns against a clone), so a tree is a value.
\<close>

datatype mobject =
  Mobject (familyProto: bool) (style: style) (path: path) (submobjects: "mobject list")

definition points :: "mobject \<Rightarrow> anchor list" where
  "points m = vertices (path m)"

definition set_vertices :: "anchor list \<Rightarrow> mobject \<Rightarrow> mobject" where
  "set_vertices vs m =
     Mobject (familyProto m) (style m) ((path m)\<lparr>vertices := vs\<rparr>) (submobjects m)"

definition set_path :: "path \<Rightarrow> mobject \<Rightarrow> mobject" where
  "set_path p m = Mobject (familyProto m) (style m) p (submobjects m)"

definition set_submobjects :: "mobject list \<Rightarrow> mobject \<Rightarrow> mobject" where
  "set_submobjects subs m = Mobject (familyProto m) (style m) (path m) subs"

text \<open>
  \<open>clone()\<close> is a deep copy: every \<open>clone\<close> override copies the path and clones the
  children recursively. On values a deep copy is the value itself.
\<close>

definition clone :: "mobject \<Rightarrow> mobject" where
  "clone m = m"

fun applyStyle :: "style_update \<Rightarrow> mobject \<Rightarrow> mobject" where
  "applyStyle su (Mobject fam st p subs) =
     (if fam then Mobject fam st p (map (applyStyle su) subs)
      else Mobject fam (Object_assign st su) p subs)"

definition getStyleDict :: "mobject \<Rightarrow> style" where
  "getStyleDict m = style m"

text \<open>\<open>new Mobject(path)\<close>: no submobjects, the default style, a prototype that is styled itself.\<close>

definition new_Mobject :: "path \<Rightarrow> mobject" where
  "new_Mobject p = applyStyle (whole_update DEFAULT_STYLE) (Mobject False DEFAULT_STYLE p [])"

text \<open>
  \<open>getMobjectHeirarchy\<close>: the node, then the hierarchies of its submobjects.
  \<open>utils.removeListRedundancies\<close> drops repeated objects; in a tree no object occurs twice.
\<close>

fun getMobjectHeirarchy :: "mobject \<Rightarrow> mobject list" where
  "getMobjectHeirarchy (Mobject fam st p subs) =
     Mobject fam st p subs # concat (map getMobjectHeirarchy subs)"

text \<open>
  \<open>getPointCenter\<close>: the centre of the bounding box of all anchor positions in the
  hierarchy. The running minimum and maximum start at \<open>\<plusminus>Infinity\<close>; the node itself has a
  point when the loop is reached, so they end at the least and greatest coordinate.
\<close>

fun least :: "real list \<Rightarrow> real" where
  "least [] = 0"
| "least (v # vs) = fold min vs v"

fun greatest :: "real list \<Rightarrow> real" where
  "greatest [] = 0"
| "greatest (v # vs) = fold max vs v"

definition getPointCenter :: "mobject \<Rightarrow> point" where
  "getPointCenter m =
     (if length (points m) = 0 then (0, 0)
      else
        let ps = map position (concat (map points (getMobjectHeirarchy m)));
            xs = map fst ps; ys = map snd ps
        in ((greatest xs + least xs) / 2, (greatest ys + least ys) / 2))"

subsection \<open>Helpers of utils.js\<close>

text \<open>
  Modelled from the spec: \<open>utils.pathFromAnchors(anchors, handles1, handles2)\<close> is not
  among the sources. The spec calls its result on \<open>([center], [center], [center])\<close> a
  degenerate single-point placeholder: one anchor per position, with its two handles as
  the control points. The first anchor is taken to carry the move command and the others
  the curve command; nothing below depends on the tags chosen here.
\<close>

definition pathFromAnchors :: "point list \<Rightarrow> point list \<Rightarrow> point list \<Rightarrow> path" where
  "pathFromAnchors anchors handles1 handles2 =
     \<lparr>vertices =
        map (\<lambda>i. \<lparr>position = anchors ! i, controls_left = handles1 ! i,
                   controls_right = handles2 ! i,
                   command = (if i = 0 then ''M'' else ''C''), relative = False\<rparr>)
            [0 ..< min (length anchors) (min (length handles1) (length handles2))],
      closed_path = False\<rparr>"

text \<open>
  Modelled from the spec: \<open>split(segment, t)\<close> of section 4.1, the de Casteljau split of
  one cubic segment (four control points) into a left and a right segment.
\<close>

type_synonym bezier = "point \<times> point \<times> point \<times> point"

definition lerp :: "point \<Rightarrow> point \<Rightarrow> real \<Rightarrow> point" where
  "lerp p q t = ((1 - t) * fst p + t * fst q, (1 - t) * snd p + t * snd q)"

definition split_segment :: "bezier \<Rightarrow> real \<Rightarrow> bezier \<times> bezier" where
  "split_segment seg t =
     (case seg of (p0, p1, p2, p3) \<Rightarrow>
        let q0 = lerp p0 p1 t; q1 = lerp p1 p2 t; q2 = lerp p2 p3 t;
            r0 = lerp q0 q1 t; r1 = lerp q1 q2 t;
            s = lerp r0 r1 t
        in ((p0, q0, r0, s), (s, r1, q2, p3)))"

text \<open>
  Modelled from the spec: \<open>subCurve(segment, a, b)\<close> of section 4.1: split at \<open>b\<close>, then
  split the left part at \<open>a / b\<close>; \<open>b = 0\<close> gives the degenerate segment at the start.
\<close>

definition subCurve :: "bezier \<Rightarrow> real \<Rightarrow> real \<Rightarrow> bezier" where
  "subCurve seg a b =
     (if b = 0 then (case seg of (p0, p1, p2, p3) \<Rightarrow> (p0, p0, p0, p0))
      else snd (split_segment (fst (split_segment seg b)) (a / b)))"

definition bezier_points :: "bezier \<Rightarrow> point list" where
  "bezier_points seg = (case seg of (p0, p1, p2, p3) \<Rightarrow> [p0, p1, p2, p3])"

text \<open>
  Modelled from the spec: \<open>utils.partialBezierPoints(curveStart, curveEnd, a1, a2)\<close> is not
  among the sources. It is the spec's \<open>subCurve\<close> of the segment between two consecutive
  anchors, as a list of four control points.
\<close>

definition partialBezierPoints :: "anchor \<Rightarrow> anchor \<Rightarrow> real \<Rightarrow> real \<Rightarrow> point list" where
  "partialBezierPoints curveStart curveEnd a1 a2 =
     bezier_points
       (subCurve (position curveStart, controls_right curveStart,
                  controls_left curveEnd, position curveEnd) a1 a2)"

text \<open>
  Modelled from the spec: \<open>utils.splitBezier(quad, t)\<close> is not among the sources.
  \<open>pointwiseBecomePartial\<close> pushes its result as one more quad, and section 4.2 says that
  this quad is the left half of \<open>split(quad, t)\<close>. A quad that does not have four points
  has no result (reading a missing point raises).
\<close>

fun splitBezier :: "point list \<Rightarrow> real \<Rightarrow> point list option" where
  "splitBezier [p0, p1, p2, p3] t = Some (bezier_points (fst (split_segment (p0, p1, p2, p3) t)))"
| "splitBezier _ t = None"

text \<open>
  Modelled from the spec: \<open>utils.integerInterpolate(start, end, t)\<close> of section 4.1:
  the index is \<open>floor(start + t (end - start))\<close> kept within \<open>[start, end - 1]\<close> and the
  residue is the fractional remainder when \<open>t < 1\<close>; at \<open>t = 1\<close> it is \<open>end - 1\<close> with
  residue 1 (section 8).
\<close>

definition integerInterpolate :: "int \<Rightarrow> int \<Rightarrow> real \<Rightarrow> int \<times> real" where
  "integerInterpolate start end' t =
     (if t \<ge> 1 then (end' - 1, 1)
      else (max start (min (end' - 1) \<lfloor>real_of_int start + t * real_of_int (end' - start)\<rfloor>),
            frac (t * real_of_int (end' - start))))"

text \<open>
  Modelled from the spec: \<open>utils.getManimPoints(mobject)\<close> is not among the sources.
  Section 4.2 has the path flattened into per-segment quads; section 3 gives a quad as
  (start, ctrl1, ctrl2, end). It is the inverse of \<open>setAnchorsFromPoints\<close> below: the
  segment between two consecutive anchors is the first anchor, its right control, the
  second anchor's left control, the second anchor.
\<close>

fun segment_points :: "anchor list \<Rightarrow> point list" where
  "segment_points (v # w # rest) =
     [position v, controls_right v, controls_left w, position w] @ segment_points (w # rest)"
| "segment_points _ = []"

definition getManimPoints :: "mobject \<Rightarrow> point list" where
  "getManimPoints m = segment_points (points m)"

text \<open>\<open>_.chunk(array, size)\<close> of lodash: groups of \<open>size\<close>, the last one shorter if need be.\<close>

function chunk :: "nat \<Rightarrow> 'a list \<Rightarrow> 'a list list" where
  "chunk n xs = (if n = 0 \<or> xs = [] then [] else take n xs # chunk n (drop n xs))"
  by pat_completeness auto
termination
  by (relation "measure (\<lambda>(n, xs). length xs)") auto

declare chunk.simps [simp del]

text \<open>\<open>array.slice(0, end)\<close>: a negative \<open>end\<close> counts from the end of the array.\<close>

definition slice0 :: "int \<Rightarrow> 'a list \<Rightarrow> 'a list" where
  "slice0 e xs = (if 0 \<le> e then take (nat e) xs else take (length xs - nat (- e)) xs)"

subsection \<open>setAnchorsFromPoints\<close>

text \<open>
  \<open>Group.setAnchorsFromPoints(points)\<close>. The first loop makes one fresh anchor for every
  integer \<open>i\<close> with \<open>i < points.length / 4 + 1\<close>. The second loop reads the points four at
  a time; a group of fewer than four points makes it read a missing point, which raises
  (\<open>None\<close>).
\<close>

definition fresh_anchor :: anchor where
  "fresh_anchor =
     \<lparr>position = (0, 0), controls_left = (0, 0), controls_right = (0, 0),
      command = ''C'', relative = False\<rparr>"

fun fill_anchors :: "point list \<Rightarrow> nat \<Rightarrow> anchor list \<Rightarrow> anchor list option" where
  "fill_anchors (p0 # p1 # p2 # p3 # rest) k anchors =
     fill_anchors rest (Suc k)
       (let anchors1 = anchors[k := (anchors ! k)\<lparr>position := p0, controls_right := p1\<rparr>]
        in anchors1[Suc k := (anchors1 ! Suc k)\<lparr>controls_left := p2, position := p3\<rparr>])"
| "fill_anchors [] k anchors = Some anchors"
| "fill_anchors _ k anchors = None"

definition anchors_from_points :: "point list \<Rightarrow> anchor list option" where
  "anchors_from_points pts =
     fill_anchors pts 0 (replicate ((length pts + 3) div 4 + 1) fresh_anchor)"

definition setAnchorsFromPoints :: "point list \<Rightarrow> mobject \<Rightarrow> mobject option" where
  "setAnchorsFromPoints pts m =
     (case anchors_from_points pts of
        None \<Rightarrow> None
      | Some anchors \<Rightarrow> Some (set_vertices anchors m))"

text \<open>
  Modelled from the spec: \<open>utils.pathFromManimPoints(points, commands)\<close> is not among the
  sources. It is the path of \<open>setAnchorsFromPoints\<close> on the same points, the anchor at
  index \<open>i\<close> carrying \<open>commands[i]\<close> (section 4.2: the anchor commands mirror the
  source's per-vertex command tags).
\<close>

definition pathFromManimPoints :: "point list \<Rightarrow> string list \<Rightarrow> path option" where
  "pathFromManimPoints pts commands =
     (case anchors_from_points pts of
        None \<Rightarrow> None
      | Some anchors \<Rightarrow>
          Some \<lparr>vertices =
                  map (\<lambda>i. if i < length commands
                            then (anchors ! i)\<lparr>command := commands ! i\<rparr> else anchors ! i)
                      [0 ..< length anchors],
                closed_path = False\<rparr>)"

section \<open>Partial reveal (pointwiseBecomePartial, ShowCreation, Write)\<close>

text \<open>
  \<open>pointwiseBecomePartial\<close> removes \<open>children[0]\<close> and adds its replacement with
  \<open>Two.Group.add\<close>, which appends: afterwards the replacement is the last child, and
  \<open>children[0]\<close> is what was the first submobject, if there was one. The object it is
  called on is therefore modelled by its list of children. A child is a path, a mobject,
  or a mobject onto which \<open>pointwiseBecomePartial\<close> has written the properties
  \<open>vertices\<close> and \<open>closed\<close> (the two components of the path it carries in the model).
  \<open>this.path()\<close> is \<open>children[0]\<close> and \<open>this.submobjects()\<close> is \<open>children.slice(1)\<close>.
\<close>

datatype child = PathChild path | MobjectChild mobject | RewrittenChild mobject path

record group =
  group_familyProto :: bool
  group_style :: style
  children :: "child list"

definition group_of :: "mobject \<Rightarrow> group" where
  "group_of m =
     \<lparr>group_familyProto = familyProto m, group_style = style m,
      children = PathChild (path m) # map MobjectChild (submobjects m)\<rparr>"

text \<open>
  \<open>child.vertices\<close>: the vertices of a path, the written property of a rewritten
  mobject, and \<open>undefined\<close> (\<open>None\<close>) on any other mobject.
\<close>

fun child_vertices :: "child \<Rightarrow> anchor list option" where
  "child_vertices (PathChild p) = Some (vertices p)"
| "child_vertices (RewrittenChild m p) = Some (vertices p)"
| "child_vertices (MobjectChild m) = None"


text \<open>
  \<open>applyStyle\<close> on such an object. A child of \<open>children.slice(1)\<close> that is a path has no
  \<open>applyStyle\<close> method: the call raises (\<open>None\<close>). On a mobject it is the mobject's
  \<open>applyStyle\<close>, which does not touch written properties.
\<close>

fun child_applyStyle :: "style_update \<Rightarrow> child \<Rightarrow> child option" where
  "child_applyStyle su (MobjectChild m) = Some (MobjectChild (applyStyle su m))"
| "child_applyStyle su (RewrittenChild m p) = Some (RewrittenChild (applyStyle su m) p)"
| "child_applyStyle su (PathChild p) = None"

definition group_applyStyle :: "style_update \<Rightarrow> group \<Rightarrow> group option" where
  "group_applyStyle su g =
     (if group_familyProto g then
        (case those (map (child_applyStyle su) (drop 1 (children g))) of
           None \<Rightarrow> None
         | Some subs \<Rightarrow> Some (g\<lparr>children := take 1 (children g) @ subs\<rparr>))
      else Some (g\<lparr>group_style := Object_assign (group_style g) su\<rparr>))"

text \<open>
  The path that \<open>pointwiseBecomePartial(other, a, b)\<close> builds: the first \<open>bIndex\<close> quads
  of \<open>other\<close>, then the quad that \<open>splitBezier\<close> returns for quad \<open>bIndex\<close> if there is
  one, with the commands of the first vertices of \<open>other\<close>, and \<open>closed = false\<close>.
  \<open>bezierQuads[bIndex]\<close> at a negative index is \<open>undefined\<close>, and \<open>splitBezier\<close> raises on
  it. The \<open>console.assert\<close> calls only log.
\<close>

definition partialPath :: "mobject \<Rightarrow> real \<Rightarrow> real \<Rightarrow> path option" where
  "partialPath other a b =
     (let bezierQuads = chunk 4 (getManimPoints other);
          (bIndex, bResidue) = integerInterpolate 0 (int (length bezierQuads)) b;
          newPathCoeffs = slice0 bIndex bezierQuads;
          bResidueCoeffs =
            (if bIndex < int (length bezierQuads)
             then (if bIndex < 0 then None else splitBezier (bezierQuads ! nat bIndex) bResidue)
             else Some [])
      in case bResidueCoeffs of
           None \<Rightarrow> None
         | Some coeffs \<Rightarrow>
             let newPathCoeffs' =
                   (if length coeffs > 0 then newPathCoeffs @ [coeffs] else newPathCoeffs);
                 vertexCommands =
                   map command (take (length newPathCoeffs' + 1) (points other))
             in (case pathFromManimPoints (concat newPathCoeffs') vertexCommands of
                   None \<Rightarrow> None
                 | Some partialPath \<Rightarrow>
                     Some \<lparr>vertices = vertices partialPath, closed_path = False\<rparr>))"

text \<open>
  Lines 857 to 860: \<open>newPath = this.path().clone()\<close>, then \<open>vertices\<close> and \<open>closed\<close>
  are written onto the clone. The clone of a path with both components replaced is the
  new path. The clone of a mobject is a mobject (\<open>Mobject.clone\<close> copies the children,
  not properties written earlier), which then carries the two written properties.
\<close>

fun rewrite_child :: "child \<Rightarrow> path \<Rightarrow> child" where
  "rewrite_child (PathChild p) partial =
     PathChild (p\<lparr>vertices := vertices partial, closed_path := False\<rparr>)"
| "rewrite_child (MobjectChild m) partial =
     RewrittenChild (clone m) \<lparr>vertices = vertices partial, closed_path = False\<rparr>"
| "rewrite_child (RewrittenChild m p) partial =
     RewrittenChild (clone m) \<lparr>vertices = vertices partial, closed_path = False\<rparr>"

text \<open>
  \<open>Group.pointwiseBecomePartial(other, a, b)\<close>. Without a first child \<open>this.path()\<close> is
  \<open>undefined\<close> and cloning it raises. Otherwise the first child is removed and its
  rewritten clone is appended. The last line re-applies the object's own style.
\<close>

definition pointwiseBecomePartial :: "group \<Rightarrow> mobject \<Rightarrow> real \<Rightarrow> real \<Rightarrow> group option" where
  "pointwiseBecomePartial this other a b =
     (case partialPath other a b of
        None \<Rightarrow> None
      | Some newPath \<Rightarrow>
          (case children this of
             [] \<Rightarrow> None
           | c # rest \<Rightarrow>
               group_applyStyle (whole_update (group_style this))
                 (this\<lparr>children := rest @ [rewrite_child c newPath]\<rparr>)))"

text \<open>\<open>ShowCreation.interpolateSubmobject(alpha, submob, startingSubmobject)\<close>.\<close>

definition ShowCreation_interpolateSubmobject :: "real \<Rightarrow> group \<Rightarrow> mobject \<Rightarrow> group option" where
  "ShowCreation_interpolateSubmobject alpha submob startingSubmobject =
     (if alpha > 0 then pointwiseBecomePartial submob startingSubmobject 0 alpha
      else Some submob)"

text \<open>
  \<open>Two.Vector.equals\<close> of the Two.js library, which \<open>Two.Anchor\<close> inherits: the distance
  of the two positions is below \<open>0.0001\<close>.
\<close>

definition Vector_equals :: "anchor \<Rightarrow> anchor \<Rightarrow> bool" where
  "Vector_equals v w =
     ((fst (position v) - fst (position w)) ^ 2 + (snd (position v) - snd (position w)) ^ 2
        < (1 / 10000) ^ 2)"

text \<open>
  \<open>Write.interpolateSubmobject(alpha, submob, startingSubmobject)\<close>. \<open>_.last\<close> of an empty
  array or of \<open>undefined\<close> is \<open>undefined\<close>, on which \<open>equals\<close> raises, as does reading
  \<open>vertices\<close> where \<open>children[0]\<close> is missing.
\<close>

definition Write_interpolateSubmobject :: "real \<Rightarrow> group \<Rightarrow> mobject \<Rightarrow> group option" where
  "Write_interpolateSubmobject alpha submob startingSubmobject =
     (if alpha \<le> 1 / 2 then pointwiseBecomePartial submob startingSubmobject 0 (2 * alpha)
      else
        (case children submob of
           [] \<Rightarrow> None
         | c # rest \<Rightarrow>
             (case child_vertices c of
                None \<Rightarrow> None
              | Some vs \<Rightarrow>
                  if vs = [] \<or> points startingSubmobject = [] then None
                  else
                    (case (if \<not> Vector_equals (last vs) (last (points startingSubmobject))
                           then pointwiseBecomePartial submob startingSubmobject 0 1
                           else Some submob) of
                       None \<Rightarrow> None
                     | Some submob' \<Rightarrow>
                         group_applyStyle
                           (empty_update\<lparr>new_fillOpacity := Some (2 * alpha - 1)\<rparr>)
                           submob'))))"

subsection \<open>Quads of a path, and a concrete closed path\<close>

text \<open>
  The quads of a vertex list, one per segment; \<open>chain\<close> says that a list of quads is a
  connected run of segments: four points each, each quad starting where the one before
  ends.
\<close>

fun segment_quads :: "anchor list \<Rightarrow> point list list" where
  "segment_quads (v # w # rest) =
     [position v, controls_right v, controls_left w, position w] # segment_quads (w # rest)"
| "segment_quads _ = []"


text \<open>
  A closed triangle whose last vertex repeats the first, as the vertices of \<open>Arc\<close> with
  \<open>angle = TAU\<close> do, and the object that \<open>Write\<close> leaves after \<open>begin()\<close> has run
  \<open>interpolate(0)\<close> on it: a two-vertex path sitting on the first corner.
\<close>

definition corner :: "point \<Rightarrow> string \<Rightarrow> anchor" where
  "corner p c =
     \<lparr>position = p, controls_left = p, controls_right = p, command = c, relative = False\<rparr>"

definition closed_triangle :: mobject where
  "closed_triangle =
     Mobject False DEFAULT_STYLE
       \<lparr>vertices = [corner (0, 0) ''M'', corner (4, 0) ''L'', corner (0, 4) ''L'',
                    corner (0, 0) ''L''],
        closed_path = True\<rparr> []"

definition degenerate_reveal :: group where
  "degenerate_reveal =
     \<lparr>group_familyProto = False, group_style = DEFAULT_STYLE,
      children = [PathChild \<lparr>vertices = [(corner (0, 0) ''M'')\<lparr>controls_left := (0, 0)\<rparr>,
                                          corner (0, 0) ''L''],
                            closed_path = False\<rparr>]\<rparr>"

section \<open>Alignment (alignData and its steps)\<close>

text \<open>
  The alignment mutates both trees in place; the model passes the pair of trees through
  each step and returns the updated pair.
\<close>

text \<open>
  \<open>Group.pushSelfIntoSubmobjects\<close>: a new mobject with this path and this style becomes
  the last submobject, and the own path becomes a single anchor at the point centre
  (computed before the path is replaced).
\<close>

definition pushSelfIntoSubmobjects :: "mobject \<Rightarrow> mobject" where
  "pushSelfIntoSubmobjects this =
     (let clonedMobject =
            applyStyle (whole_update (getStyleDict this)) (new_Mobject (path this));
          center = getPointCenter this
      in Mobject (familyProto this) (style this)
           (pathFromAnchors [center] [center] [center])
           (submobjects this @ [clonedMobject]))"

definition nullPointAlign :: "mobject \<Rightarrow> mobject \<Rightarrow> mobject \<times> mobject" where
  "nullPointAlign this other =
     (if length (points this) = 0 \<and> length (points other) \<noteq> 0
      then (this, pushSelfIntoSubmobjects other)
      else if length (points other) = 0 \<and> length (points this) \<noteq> 0
      then (pushSelfIntoSubmobjects this, other)
      else (this, other))"

definition getPointMobject :: "mobject \<Rightarrow> mobject" where
  "getPointMobject this =
     (let center = getPointCenter this
      in new_Mobject (pathFromAnchors [center] [center] [center]))"

text \<open>
  The proportional allocation shared by \<open>addSubmobjects\<close> and \<open>addPoints\<close>:
  \<open>repeatIndices\<close> is \<open>np.arange(target).map(x => Math.floor(x * cur / target))\<close> and
  \<open>splitFactors[i]\<close> counts the entries of \<open>repeatIndices\<close> equal to \<open>i\<close>, for
  \<open>i < cur\<close>. The operands are non-negative integers, so the floor of the quotient is the
  integer quotient.
\<close>

definition repeatIndices :: "nat \<Rightarrow> nat \<Rightarrow> nat list" where
  "repeatIndices cur target = map (\<lambda>x. x * cur div target) [0 ..< target]"

definition splitFactors :: "nat \<Rightarrow> nat \<Rightarrow> nat list" where
  "splitFactors cur target =
     map (\<lambda>i. length (filter (\<lambda>x. x = i) (repeatIndices cur target))) [0 ..< cur]"

text \<open>
  \<open>Group.addSubmobjects(n)\<close>. Without submobjects, \<open>n\<close> point mobjects are added one
  after the other. Otherwise submobject \<open>i\<close> is replaced by a clone followed by
  \<open>splitFactors[i] - 1\<close> further clones (none if that number is not positive), each
  restyled with the stroke and fill colour of the original at alpha 0. \<open>applyStyle\<close>
  overwrites the alpha of a colour with the opacity of the style dictionary, so of these
  two colours only the colour itself reaches the style.
\<close>

definition addSubmobjects :: "nat \<Rightarrow> mobject \<Rightarrow> mobject" where
  "addSubmobjects n this =
     (let currentNumSubmobjects = length (submobjects this)
      in if currentNumSubmobjects = 0
         then ((\<lambda>m. set_submobjects (submobjects m @ [getPointMobject m]) m) ^^ n) this
         else
           let target = currentNumSubmobjects + n;
               factors = splitFactors currentNumSubmobjects target;
               newSubmobjects =
                 concat (map (\<lambda>i.
                     let sf = factors ! i;
                         oldStyle = getStyleDict (submobjects this ! i)
                     in clone (submobjects this ! i)
                        # replicate (sf - 1)
                            (applyStyle
                               (empty_update\<lparr>new_strokeColor := Some (strokeColor oldStyle),
                                              new_fillColor := Some (fillColor oldStyle)\<rparr>)
                               (clone (submobjects this ! i))))
                   [0 ..< currentNumSubmobjects])
           in set_submobjects newSubmobjects this)"

definition alignSubmobjects :: "mobject \<Rightarrow> mobject \<Rightarrow> mobject \<times> mobject" where
  "alignSubmobjects this other =
     (if length (submobjects this) = length (submobjects other) then (this, other)
      else if length (submobjects this) < length (submobjects other)
      then (addSubmobjects (length (submobjects other) - length (submobjects this)) this, other)
      else (this, addSubmobjects (length (submobjects this) - length (submobjects other)) other))"

text \<open>
  \<open>Group.addPoints(n)\<close> returns the new point list and, when the path has exactly one
  anchor, first pushes \<open>n\<close> copies of that anchor onto the path; the model returns the
  object as well. \<open>curNum\<close> is then decreased to the number of curves (for an empty path
  JavaScript has \<open>-1\<close> here and the model 0; both run none of the loops below).
  \<open>np.linspace(0, 1, k + 1)\<close> is the list of the \<open>j / k\<close>.
\<close>

definition addPoints :: "nat \<Rightarrow> mobject \<Rightarrow> mobject \<times> point list" where
  "addPoints n this =
     (let curNum = length (points this);
          this1 = (if curNum = 1
                   then set_vertices (points this @ replicate n (points this ! 0)) this
                   else this);
          curNum' = curNum - 1;
          targetNum = curNum' + n;
          factors = splitFactors curNum' targetNum;
          newPoints =
            concat (map (\<lambda>i.
                let curveStart = points this1 ! i;
                    curveEnd = points this1 ! (i + 1);
                    splitFactor = factors ! i
                in concat (map (\<lambda>j.
                       partialBezierPoints curveStart curveEnd
                         (real j / real splitFactor) (real (j + 1) / real splitFactor))
                     [0 ..< splitFactor]))
              [0 ..< curNum'])
      in (this1, newPoints))"

text \<open>
  \<open>Group.alignPoints(other)\<close>. \<open>getPixelCenter\<close> reads the rendered bounding box (or the
  scene's width and height) and is a parameter of the model; note that the loop asks
  \<open>this\<close> for it also when it seeds \<open>other\<close>. A \<open>new Two.Anchor\<close> is relative.
\<close>

definition pixel_anchor :: "point \<Rightarrow> anchor" where
  "pixel_anchor center =
     \<lparr>position = center, controls_left = center, controls_right = center,
      command = ''C'', relative = True\<rparr>"

definition alignPoints ::
    "(mobject \<Rightarrow> point) \<Rightarrow> mobject \<Rightarrow> mobject \<Rightarrow> (mobject \<times> mobject) option" where
  "alignPoints getPixelCenter this other =
     (if length (points this) = length (points other) then Some (this, other)
      else
        let this1 = (if length (points this) = 0
                     then set_vertices (points this @ [pixel_anchor (getPixelCenter this)]) this
                     else this);
            other1 = (if length (points other) = 0
                      then set_vertices (points other @ [pixel_anchor (getPixelCenter this1)]) other
                      else other)
        in if length (points this1) < length (points other1)
           then (case addPoints (length (points other1) - length (points this1)) this1 of
                   (fewer, newPoints) \<Rightarrow>
                     map_option (\<lambda>fewer'. (fewer', other1)) (setAnchorsFromPoints newPoints fewer))
           else (case addPoints (length (points this1) - length (points other1)) other1 of
                   (fewer, newPoints) \<Rightarrow>
                     map_option (\<lambda>fewer'. (this1, fewer')) (setAnchorsFromPoints newPoints fewer)))"

text \<open>
  The three steps of \<open>alignData\<close> at one level, in the order of the source.
\<close>

definition alignLevel ::
    "(mobject \<Rightarrow> point) \<Rightarrow> mobject \<Rightarrow> mobject \<Rightarrow> (mobject \<times> mobject) option" where
  "alignLevel getPixelCenter this other =
     (case nullPointAlign this other of
        (this1, other1) \<Rightarrow>
          (case alignSubmobjects this1 other1 of
             (this2, other2) \<Rightarrow> alignPoints getPixelCenter this2 other2))"

text \<open>
  The recursion of \<open>alignData\<close> descends into submobjects that the steps may just have
  created. Its measure: twice the greater height of the two trees, plus one when exactly
  one of the two paths is empty (the case in which a node is pushed into a new
  submobject).
\<close>

fun height :: "mobject \<Rightarrow> nat" where
  "height (Mobject fam st p subs) =
     (if subs = [] then 0 else Suc (fold max (map height subs) 0))"

definition unbalanced :: "mobject \<Rightarrow> mobject \<Rightarrow> bool" where
  "unbalanced this other = ((points this = []) \<noteq> (points other = []))"

definition alignMeasure :: "mobject \<Rightarrow> mobject \<Rightarrow> nat" where
  "alignMeasure this other =
     2 * max (height this) (height other) + (if unbalanced this other then 1 else 0)"

text \<open>
  \<open>Group.alignData(other)\<close>: the three steps, then the recursion over
  \<open>this.submobjects()\<close> with \<open>other.submobjects()[i]\<close>. Where \<open>other\<close> has fewer
  submobjects than \<open>this\<close> the callee reads \<open>undefined.points\<close> and raises (\<open>None\<close>);
  submobjects of \<open>other\<close> beyond those of \<open>this\<close> would be left as they are. The
  \<open>console.assert\<close> only logs. Termination is proved with the theorems on the alignment.
\<close>

function alignData ::
    "(mobject \<Rightarrow> point) \<Rightarrow> mobject \<Rightarrow> mobject \<Rightarrow> (mobject \<times> mobject) option" where
  "alignData getPixelCenter this other =
     (case alignLevel getPixelCenter this other of
        None \<Rightarrow> None
      | Some (this', other') \<Rightarrow>
          if length (submobjects this') > length (submobjects other') then None
          else
            (case those (map (\<lambda>(mob, mob'). alignData getPixelCenter mob mob')
                           (zip (submobjects this') (submobjects other'))) of
               None \<Rightarrow> None
             | Some aligned \<Rightarrow>
                 Some (set_submobjects (map fst aligned) this',
                       set_submobjects
                         (map snd aligned
                          @ drop (length (submobjects this')) (submobjects other'))
                         other')))"
  by pat_completeness auto


text \<open>
  Postconditions of the alignment, as predicates on a pair of trees. \<open>sameCounts\<close>: at
  every level the two nodes have the same number of submobjects. \<open>pointsSettled\<close>: the
  two paths have the same number of points, or the shorter one is the single fresh anchor
  that \<open>setAnchorsFromPoints\<close> makes from an empty point list.
\<close>

function sameCounts :: "mobject \<Rightarrow> mobject \<Rightarrow> bool" where
  "sameCounts this other =
     (length (submobjects this) = length (submobjects other)
      \<and> list_all (\<lambda>(mob, mob'). sameCounts mob mob')
            (zip (submobjects this) (submobjects other)))"
  by pat_completeness auto
termination
proof (relation "measure (\<lambda>(this, other). size this)")
  show "wf (measure (\<lambda>(this, other). size this))" by simp
next
  fix this other :: mobject and z mob mob'
  assume "z \<in> set (zip (submobjects this) (submobjects other))" "(mob, mob') = z"
  then have "mob \<in> set (submobjects this)" by (auto dest: set_zip_leftD)
  then have "size mob < size this"
    by (cases this) (auto simp add: less_Suc_eq_le intro: size_list_estimation')
  then show "((mob, mob'), (this, other)) \<in> measure (\<lambda>(this, other). size this)" by simp
qed

declare sameCounts.simps [simp del]

definition pointsSettled :: "mobject \<Rightarrow> mobject \<Rightarrow> bool" where
  "pointsSettled this other =
     (length (points this) = length (points other)
      \<or> (points this = [fresh_anchor] \<and> 1 < length (points other))
      \<or> (points other = [fresh_anchor] \<and> 1 < length (points this)))"

text \<open>
  The two calls by which \<open>alignPoints\<close> grows the side with fewer points:
  \<open>fewer.setAnchorsFromPoints(fewer.addPoints(k))\<close>. On a path of a single anchor
  \<open>addPoints\<close> returns no points, and the path becomes the single fresh anchor.
\<close>

definition grow :: "nat \<Rightarrow> mobject \<Rightarrow> mobject option" where
  "grow k fewer = (case addPoints k fewer of (f, newPoints) \<Rightarrow> setAnchorsFromPoints newPoints f)"

text \<open>A node without a path of its own that has three triangles as submobjects.\<close>

definition three_triangles :: mobject where
  "three_triangles =
     Mobject False DEFAULT_STYLE \<lparr>vertices = [], closed_path = False\<rparr>
       [closed_triangle, closed_triangle, closed_triangle]"


section \<open>Timing theorems\<close>

subsection \<open>Rounding to binary64\<close>

text \<open>
  Rounding to nearest-even is monotone, idempotent and off by at most half a spacing;
  the binade exponent is the one integer \<open>e \<ge> -1022\<close> with \<open>2^e \<le> x < 2^(e+1)\<close>
  (or \<open>-1022\<close> below the normal range).
\<close>

lemma rne_of_int: "rne (of_int n) = n"
  by (simp add: rne_def)

lemma rne_floor: "rne q = \<lfloor>q\<rfloor> \<or> rne q = \<lfloor>q\<rfloor> + 1"
  by (simp add: rne_def Let_def)

lemma rne_up: "rne q = \<lfloor>q\<rfloor> + 1 \<Longrightarrow> 1 / 2 \<le> q - of_int \<lfloor>q\<rfloor>"
  by (simp add: rne_def Let_def split: if_splits)

lemma rne_down: "rne q = \<lfloor>q\<rfloor> \<Longrightarrow> q - of_int \<lfloor>q\<rfloor> \<le> 1 / 2"
  by (simp add: rne_def Let_def split: if_splits)

lemma rne_error: "\<bar>of_int (rne q) - q\<bar> \<le> 1 / 2"
proof -
  have fl: "of_int \<lfloor>q\<rfloor> \<le> q" "q < of_int \<lfloor>q\<rfloor> + 1" by linarith+
  from rne_floor [of q] show ?thesis
  proof
    assume h: "rne q = \<lfloor>q\<rfloor>"
    from rne_down [OF h] fl show ?thesis unfolding h by linarith
  next
    assume h: "rne q = \<lfloor>q\<rfloor> + 1"
    from rne_up [OF h] fl show ?thesis unfolding h by simp
  qed
qed

lemma rne_mono:
  assumes "q \<le> q'"
  shows "rne q \<le> rne q'"
proof (cases "\<lfloor>q\<rfloor> = \<lfloor>q'\<rfloor>")
  case False
  with assms have "\<lfloor>q\<rfloor> < \<lfloor>q'\<rfloor>" by (simp add: floor_mono order.not_eq_order_implies_strict)
  then have "\<lfloor>q\<rfloor> + 1 \<le> \<lfloor>q'\<rfloor>" by simp
  moreover have "rne q \<le> \<lfloor>q\<rfloor> + 1" using rne_floor [of q] by auto
  moreover have "\<lfloor>q'\<rfloor> \<le> rne q'" using rne_floor [of q'] by auto
  ultimately show ?thesis by linarith
next
  case True
  show ?thesis
  proof (cases "q = q'")
    case True
    then show ?thesis by simp
  next
    case False
    with assms have lt: "q < q'" by simp
    show ?thesis
    proof (cases "rne q = \<lfloor>q\<rfloor>")
      case True
      then show ?thesis using rne_floor [of q'] \<open>\<lfloor>q\<rfloor> = \<lfloor>q'\<rfloor>\<close> by auto
    next
      case False
      then have up: "rne q = \<lfloor>q\<rfloor> + 1" using rne_floor [of q] by auto
      from rne_up [OF up] lt \<open>\<lfloor>q\<rfloor> = \<lfloor>q'\<rfloor>\<close>
      have "1 / 2 < q' - of_int \<lfloor>q'\<rfloor>" by simp
      then have "rne q' = \<lfloor>q'\<rfloor> + 1" by (simp add: rne_def Let_def)
      with up \<open>\<lfloor>q\<rfloor> = \<lfloor>q'\<rfloor>\<close> show ?thesis by simp
    qed
  qed
qed

lemma rne_nonneg: "0 \<le> q \<Longrightarrow> 0 \<le> rne q"
  using rne_mono [of 0 q] rne_of_int [of 0] by simp


lemma raw_exponent_ge1:
  assumes "1 \<le> (x::real)"
  shows "2 powi (bitlen \<lfloor>x\<rfloor> - 1) \<le> x \<and> x < 2 powi (bitlen \<lfloor>x\<rfloor> - 1 + 1)"
proof -
  let ?m = "\<lfloor>x\<rfloor>"
  from assms have m: "0 < ?m" by simp
  from m have b1: "1 \<le> bitlen ?m" by (auto simp: bitlen_alt_def)
  from bitlen_bounds [OF m]
  have lo: "2 ^ nat (bitlen ?m - 1) \<le> ?m" and hi: "?m < 2 ^ nat (bitlen ?m)" by simp_all
  from lo have "(2::real) ^ nat (bitlen ?m - 1) \<le> of_int ?m"
    by (metis of_int_le_iff of_int_numeral of_int_power)
  also have "\<dots> \<le> x" by simp
  finally have A: "2 powi (bitlen ?m - 1) \<le> x"
    using b1 by (simp add: power_int_def)
  from hi have "?m + 1 \<le> 2 ^ nat (bitlen ?m)" by simp
  then have "real_of_int (?m + 1) \<le> 2 ^ nat (bitlen ?m)"
    by (metis of_int_le_iff of_int_numeral of_int_power)
  moreover have "x < real_of_int (?m + 1)" by linarith
  ultimately have "x < 2 ^ nat (bitlen ?m)" by linarith
  then have B: "x < 2 powi (bitlen ?m - 1 + 1)"
    using b1 by (simp add: power_int_def)
  from A B show ?thesis ..
qed

lemma raw_exponent_lt1:
  assumes "0 < (x::real)" "x < 1"
  shows "2 powi (- bitlen (\<lceil>1 / x\<rceil> - 1)) \<le> x \<and> x < 2 powi (- bitlen (\<lceil>1 / x\<rceil> - 1) + 1)"
proof -
  let ?c = "\<lceil>1 / x\<rceil>"
  let ?m = "?c - 1"
  let ?k = "bitlen ?m"
  from assms have inv: "1 < 1 / x" by simp
  then have "1 < ?c" by (simp add: less_ceiling_iff)
  then have m: "0 < ?m" by simp
  from m have b1: "1 \<le> ?k" by (auto simp: bitlen_alt_def)
  from bitlen_bounds [OF m]
  have lo: "2 ^ nat (?k - 1) \<le> ?m" and hi: "?m < 2 ^ nat ?k" by simp_all
  from hi have "?c \<le> 2 ^ nat ?k" by simp
  then have "real_of_int ?c \<le> 2 ^ nat ?k"
    by (metis of_int_le_iff of_int_numeral of_int_power)
  moreover have "1 / x \<le> real_of_int ?c" by linarith
  ultimately have "1 / x \<le> 2 ^ nat ?k" by linarith
  with assms have "1 \<le> x * 2 ^ nat ?k" by (simp add: field_simps)
  then have "1 / 2 ^ nat ?k \<le> x" by (simp add: field_simps)
  then have A: "2 powi (- ?k) \<le> x"
    using b1 by (simp add: power_int_def field_simps)
  from lo have "(2::real) ^ nat (?k - 1) \<le> of_int ?m"
    by (metis of_int_le_iff of_int_numeral of_int_power)
  moreover have "real_of_int ?m < 1 / x" by linarith
  ultimately have "(2::real) ^ nat (?k - 1) < 1 / x" by linarith
  with assms have "x * 2 ^ nat (?k - 1) < 1" by (simp add: field_simps)
  then have "x < 1 / 2 ^ nat (?k - 1)" by (simp add: field_simps)
  moreover have "2 powi (- ?k + 1) = (1::real) / 2 ^ nat (?k - 1)"
    using b1 by (simp add: power_int_def field_simps)
  ultimately have B: "x < 2 powi (- ?k + 1)" by simp
  from A B show ?thesis ..
qed

lemma raw_exponent:
  assumes "0 < x"
  shows "\<exists>e. binade x = max (- 1022) e \<and> 2 powi e \<le> x \<and> x < 2 powi (e + 1)"
proof (cases "1 \<le> x")
  case True
  from raw_exponent_ge1 [OF True] True show ?thesis
    unfolding binade_def by auto
next
  case False
  with assms raw_exponent_lt1 [of x] show ?thesis
    unfolding binade_def by auto
qed

lemma binade_ge: "- 1022 \<le> binade x"
  by (simp add: binade_def)

lemma binade_upper:
  assumes "0 < x"
  shows "x < 2 powi (binade x + 1)"
proof -
  from raw_exponent [OF assms] obtain e where
    e: "binade x = max (- 1022) e" "x < 2 powi (e + 1)" by blast
  have "(2::real) powi (e + 1) \<le> 2 powi (binade x + 1)"
    by (rule power_int_increasing) (simp_all add: e)
  with e show ?thesis by linarith
qed

lemma binade_lower:
  assumes "0 < x" "- 1022 < binade x"
  shows "2 powi binade x \<le> x"
proof -
  from raw_exponent [OF assms(1)] obtain e where
    e: "binade x = max (- 1022) e" "2 powi e \<le> x" by blast
  with assms(2) have "binade x = e" by (simp add: max_def split: if_splits)
  with e show ?thesis by simp
qed

lemma pow2_less_imp: "(2::real) powi a \<le> x \<Longrightarrow> x < 2 powi b \<Longrightarrow> a < b"
proof (rule ccontr)
  assume h: "(2::real) powi a \<le> x" "x < 2 powi b" "\<not> a < b"
  then have "(2::real) powi b \<le> 2 powi a" by (intro power_int_increasing) simp_all
  with h show False by linarith
qed

lemma binade_eqI:
  assumes x: "0 < x" and e: "- 1022 \<le> e" and up: "x < 2 powi (e + 1)"
      and lo: "2 powi e \<le> x \<or> e = - 1022"
  shows "binade x = e"
proof (rule antisym)
  show "binade x \<le> e"
  proof (rule ccontr)
    assume "\<not> binade x \<le> e"
    then have gt: "e < binade x" by simp
    with e have "- 1022 < binade x" by simp
    from binade_lower [OF x this] up have "binade x < e + 1" by (rule pow2_less_imp)
    with gt show False by simp
  qed
  show "e \<le> binade x"
  proof (rule ccontr)
    assume "\<not> e \<le> binade x"
    then have lt: "binade x < e" by simp
    with binade_ge [of x] lo have "2 powi e \<le> x" by auto
    from this binade_upper [OF x] have "e < binade x + 1" by (rule pow2_less_imp)
    with lt show False by simp
  qed
qed

lemma binade_mono:
  assumes "0 < x" "x \<le> y"
  shows "binade x \<le> binade y"
proof (rule ccontr)
  assume "\<not> binade x \<le> binade y"
  then have lt: "binade y < binade x" by simp
  with binade_ge [of y] have "- 1022 < binade x" by simp
  from binade_lower [OF assms(1) this] assms(2) have "2 powi binade x \<le> y" by simp
  moreover from assms have "0 < y" by simp
  from binade_upper [OF this] have "y < 2 powi (binade y + 1)" .
  ultimately have "binade x < binade y + 1" by (rule pow2_less_imp)
  with lt show False by simp
qed


lemma ulp_pos: "0 < ulp x"
  by (simp add: ulp_def)

lemma ulp_times_53: "ulp x * 2 ^ 53 = 2 powi (binade x + 1)"
proof -
  have eq: "binade x + 1 = (binade x - 52) + 53" by simp
  have "(2::real) powi (binade x + 1) = 2 powi (binade x - 52) * 2 powi 53"
    by (subst eq, rule power_int_add) simp
  then show ?thesis by (simp add: ulp_def)
qed

lemma ulp_times_52: "ulp x * 2 ^ 52 = 2 powi binade x"
proof -
  have eq: "binade x = (binade x - 52) + 52" by simp
  have "(2::real) powi binade x = 2 powi (binade x - 52) * 2 powi 52"
    by (subst eq, rule power_int_add) simp
  then show ?thesis by (simp add: ulp_def)
qed

lemma round64_0: "round64 0 = 0"
  by (simp add: round64_def)

lemma round64_pos: "0 < x \<Longrightarrow> round64 x = of_int (rne (x / ulp x)) * ulp x"
  by (simp add: round64_def)

lemma scaled_upper:
  assumes "0 < x"
  shows "x / ulp x < 2 ^ 53"
proof -
  from binade_upper [OF assms] have "x < ulp x * 2 ^ 53" by (simp only: ulp_times_53)
  then show ?thesis using ulp_pos [of x] by (simp add: field_simps)
qed

lemma scaled_lower:
  assumes "0 < x" "- 1022 < binade x"
  shows "2 ^ 52 \<le> x / ulp x"
proof -
  from binade_lower [OF assms] have "ulp x * 2 ^ 52 \<le> x" by (simp only: ulp_times_52)
  then show ?thesis using ulp_pos [of x] by (simp add: field_simps)
qed

lemma rne_upper:
  assumes "0 < x"
  shows "rne (x / ulp x) \<le> 2 ^ 53"
proof -
  from scaled_upper [OF assms] have "x / ulp x \<le> of_int (2 ^ 53)" by simp
  from rne_mono [OF this] show ?thesis by (simp only: rne_of_int)
qed

lemma rne_lower:
  assumes "0 < x" "- 1022 < binade x"
  shows "2 ^ 52 \<le> rne (x / ulp x)"
proof -
  from scaled_lower [OF assms] have "of_int (2 ^ 52) \<le> x / ulp x" by simp
  from rne_mono [OF this] show ?thesis by (simp only: rne_of_int)
qed

lemma round64_upper:
  assumes "0 < x"
  shows "round64 x \<le> 2 powi (binade x + 1)"
proof -
  from rne_upper [OF assms] have "real_of_int (rne (x / ulp x)) \<le> 2 ^ 53"
    by (metis of_int_le_iff of_int_numeral of_int_power)
  then have "real_of_int (rne (x / ulp x)) * ulp x \<le> 2 ^ 53 * ulp x"
    using ulp_pos [of x] by (simp only: mult_le_cancel_right_pos)
  then show ?thesis
    using ulp_times_53 [of x] by (simp add: round64_pos [OF assms] mult.commute)
qed

lemma round64_lower:
  assumes "0 < x" "- 1022 < binade x"
  shows "2 powi binade x \<le> round64 x"
proof -
  from rne_lower [OF assms] have "2 ^ 52 \<le> real_of_int (rne (x / ulp x))"
    by (metis of_int_le_iff of_int_numeral of_int_power)
  then have "2 ^ 52 * ulp x \<le> real_of_int (rne (x / ulp x)) * ulp x"
    using ulp_pos [of x] by (simp only: mult_le_cancel_right_pos)
  then show ?thesis
    using ulp_times_52 [of x] by (simp add: round64_pos [OF assms(1)] mult.commute)
qed

lemma round64_nonneg:
  assumes "0 \<le> x"
  shows "0 \<le> round64 x"
proof (cases "x = 0")
  case True
  then show ?thesis by (simp add: round64_0)
next
  case False
  with assms have x: "0 < x" by simp
  then have "0 \<le> x / ulp x" using ulp_pos [of x] by simp
  from rne_nonneg [OF this] ulp_pos [of x] show ?thesis
    by (simp add: round64_pos [OF x])
qed

lemma round64_mono:
  assumes "0 \<le> x" "x \<le> y"
  shows "round64 x \<le> round64 y"
proof (cases "x = 0")
  case True
  with assms round64_nonneg [of y] show ?thesis by (simp add: round64_0)
next
  case False
  with assms have x: "0 < x" and y: "0 < y" by simp_all
  from binade_mono [OF x assms(2)] have le: "binade x \<le> binade y" .
  show ?thesis
  proof (cases "binade x = binade y")
    case True
    then have u: "ulp x = ulp y" by (simp add: ulp_def)
    from assms(2) have "x / ulp y \<le> y / ulp y"
      using ulp_pos [of y] by (simp add: divide_right_mono)
    from rne_mono [OF this] have "real_of_int (rne (x / ulp y)) \<le> real_of_int (rne (y / ulp y))"
      by simp
    then have "real_of_int (rne (x / ulp y)) * ulp y \<le> real_of_int (rne (y / ulp y)) * ulp y"
      using ulp_pos [of y] by (simp only: mult_le_cancel_right_pos)
    then show ?thesis by (simp add: round64_pos [OF x] round64_pos [OF y] u)
  next
    case False
    with le have lt: "binade x < binade y" by simp
    with binade_ge [of x] have "- 1022 < binade y" by simp
    from round64_lower [OF y this] have "2 powi binade y \<le> round64 y" .
    moreover have "(2::real) powi (binade x + 1) \<le> 2 powi binade y"
      using lt by (intro power_int_increasing) simp_all
    moreover note round64_upper [OF x]
    ultimately show ?thesis by linarith
  qed
qed

lemma round64_error:
  assumes "0 < x"
  shows "\<bar>round64 x - x\<bar> \<le> ulp x / 2"
proof -
  let ?q = "x / ulp x"
  have "\<bar>round64 x - x\<bar> = \<bar>(real_of_int (rne ?q) - ?q) * ulp x\<bar>"
    using ulp_pos [of x] by (simp add: round64_pos [OF assms] algebra_simps)
  also have "\<dots> = \<bar>real_of_int (rne ?q) - ?q\<bar> * ulp x"
    using ulp_pos [of x] by (simp add: abs_mult)
  also have "\<dots> \<le> (1 / 2) * ulp x"
    using rne_error [of ?q] ulp_pos [of x] by (simp only: mult_le_cancel_right_pos)
  finally show ?thesis by simp
qed

lemma round64_exact:
  assumes x: "0 < x" and e: "binade x = e" and m: "x = real_of_int m * 2 powi (e - 52)"
  shows "round64 x = x"
proof -
  have u: "ulp x = 2 powi (e - 52)" by (simp add: ulp_def e)
  have "x / ulp x = real_of_int m" unfolding u by (subst m) simp
  then show ?thesis unfolding round64_pos [OF x] by (simp add: rne_of_int u m [symmetric])
qed

lemma round64_idem:
  assumes "0 \<le> x"
  shows "round64 (round64 x) = round64 x"
proof (cases "x = 0")
  case True
  then show ?thesis by (simp add: round64_0)
next
  case False
  with assms have x: "0 < x" by simp
  let ?m = "rne (x / ulp x)"
  let ?e = "binade x"
  have y: "round64 x = real_of_int ?m * 2 powi (?e - 52)"
    by (simp add: round64_pos [OF x] ulp_def)
  have m0: "0 \<le> ?m" using x ulp_pos [of x] by (intro rne_nonneg) simp
  show ?thesis
  proof (cases "?m = 0")
    case True
    then show ?thesis by (simp add: y round64_0)
  next
    case False
    with m0 have mpos: "0 < ?m" by simp
    then have ypos: "0 < round64 x" by (simp add: y)
    show ?thesis
    proof (cases "?m = 2 ^ 53")
      case True
      then have "round64 x = 2 ^ 53 * ulp x" by (simp add: round64_pos [OF x])
      then have yv: "round64 x = 2 powi (?e + 1)"
        using ulp_times_53 [of x] by (simp add: mult.commute)
      have be: "binade (round64 x) = ?e + 1"
      proof (rule binade_eqI [OF ypos])
        show "- 1022 \<le> ?e + 1" using binade_ge [of x] by simp
        show "round64 x < 2 powi (?e + 1 + 1)"
          unfolding yv by (intro power_int_strict_increasing) simp_all
        show "2 powi (?e + 1) \<le> round64 x \<or> ?e + 1 = - 1022" by (simp add: yv)
      qed
      have eq: "?e + 1 = 52 + (?e + 1 - 52)" by simp
      have "(2::real) powi (?e + 1) = 2 powi 52 * 2 powi (?e + 1 - 52)"
        by (subst eq, rule power_int_add) simp
      then have "round64 x = real_of_int (2 ^ 52) * 2 powi (?e + 1 - 52)"
        by (simp add: yv)
      from round64_exact [OF ypos be this] show ?thesis .
    next
      case False
      with rne_upper [OF x] have mlt: "?m < 2 ^ 53" by simp
      then have "real_of_int ?m < 2 ^ 53"
        by (metis of_int_less_iff of_int_numeral of_int_power)
      then have "real_of_int ?m * ulp x < 2 ^ 53 * ulp x"
        using ulp_pos [of x] by (simp only: mult_less_cancel_right_pos)
      then have yup: "round64 x < 2 powi (?e + 1)"
        using ulp_times_53 [of x] by (simp add: round64_pos [OF x] mult.commute)
      have be: "binade (round64 x) = ?e"
      proof (rule binade_eqI [OF ypos binade_ge])
        show "round64 x < 2 powi (?e + 1)" by (rule yup)
        show "2 powi ?e \<le> round64 x \<or> ?e = - 1022"
          using round64_lower [OF x] binade_ge [of x] by (cases "?e = - 1022") auto
      qed
      from round64_exact [OF ypos be y] show ?thesis .
    qed
  qed
qed


lemma round64_eqI:
  assumes "0 < x" "- 1022 \<le> e" "x < 2 powi (e + 1)" "2 powi e \<le> x \<or> e = - 1022"
      and "x = real_of_int m * 2 powi (e - 52)"
  shows "round64 x = x"
  using round64_exact [OF assms(1) binade_eqI [OF assms(1-4)] assms(5)] .

lemma round64_1: "round64 1 = 1"
  by (rule round64_eqI [where e = 0 and m = "2 ^ 52"]) (simp_all add: power_int_minus)

lemma round64_2: "round64 2 = 2"
  by (rule round64_eqI [where e = 1 and m = "2 ^ 52"]) (simp_all add: power_int_minus)

lemma round64_2_53: "round64 (2 ^ 53) = 2 ^ 53"
  by (rule round64_eqI [where e = 53 and m = "2 ^ 52"]) simp_all

lemma round64_2_53_pred: "round64 (2 ^ 53 - 1) = 2 ^ 53 - 1"
  by (rule round64_eqI [where e = 52 and m = "2 ^ 53 - 1"]) simp_all

lemma round64_2_1023: "round64 (2 ^ 1023) = 2 ^ 1023"
  by (rule round64_eqI [where e = 1023 and m = "2 ^ 52"]) simp_all

lemma round64_2_1024: "round64 (2 ^ 1024) = 2 ^ 1024"
  by (rule round64_eqI [where e = 1024 and m = "2 ^ 52"]) simp_all

lemma round64_2_53_succ: "round64 (2 ^ 53 + 1) = 2 ^ 53"
proof -
  have a: "\<bar>2 ^ 53 + 1 :: real\<bar> = 2 ^ 53 + 1" by simp
  have b: "binade (2 ^ 53 + 1) = 53" by (rule binade_eqI) simp_all
  show ?thesis unfolding round64_def ulp_def a b by (simp add: rne_def)
qed

lemma round64_fifth: "round64 (2 / 10) = 3602879701896397 / 18014398509481984"
proof -
  have a: "\<bar>2 / 10 :: real\<bar> = 2 / 10" by simp
  have b: "binade (2 / 10) = - 3" by (rule binade_eqI) (simp_all add: power_int_minus)
  show ?thesis unfolding round64_def ulp_def a b by (simp add: rne_def power_int_minus)
qed

lemma fl_0: "fl 0 = Num 0"
  by (simp add: fl_def round64_0)

lemma fl_1: "fl 1 = Num 1"
  unfolding fl_def round64_1 Let_def by simp

lemma fl_2: "fl 2 = Num 2"
  unfolding fl_def round64_2 Let_def by simp

lemma fl_2_53: "fl (2 ^ 53) = Num (2 ^ 53)"
  unfolding fl_def round64_2_53 Let_def by simp

lemma fl_2_53_succ: "fl (2 ^ 53 + 1) = Num (2 ^ 53)"
  unfolding fl_def round64_2_53_succ Let_def by simp

lemma fl_2_1023: "fl (2 ^ 1023) = Num (2 ^ 1023)"
  unfolding fl_def round64_2_1023 Let_def by simp

lemma fl_2_1024: "fl (2 ^ 1024) = PosInfinity"
  unfolding fl_def round64_2_1024 Let_def by simp

lemma fl_fifth: "fl (2 / 10) = Num (3602879701896397 / 18014398509481984)"
  unfolding fl_def round64_fifth Let_def by simp

lemma fl_finite:
  assumes "0 \<le> round64 x" "round64 x \<le> 2 ^ 53"
  shows "fl x = Num (round64 x)"
proof -
  have "(2::real) ^ 53 < 2 powi 1024" by simp
  with assms show ?thesis by (simp add: fl_def Let_def)
qed

lemma fl_small:
  assumes "0 \<le> x" "x \<le> 2 ^ 53"
  shows "fl x = Num (round64 x) \<and> 0 \<le> round64 x \<and> round64 x \<le> 2 ^ 53"
proof -
  from round64_mono [OF assms] have "round64 x \<le> 2 ^ 53" by (simp only: round64_2_53)
  with round64_nonneg [OF assms(1)] fl_finite [of x] show ?thesis by simp
qed

lemma round64_succ:
  assumes a: "0 \<le> a" "a \<le> 2 ^ 53 - 1"
  shows "a < round64 (a + 1)"
proof (cases "a + 1 = 2 ^ 53")
  case True
  then have "round64 (a + 1) = a + 1" by (simp only: round64_2_53)
  then show ?thesis by simp
next
  case False
  with a have lt: "a + 1 < 2 ^ 53" by simp
  from a have pos: "0 < a + 1" by simp
  have "binade (a + 1) \<le> 52"
  proof (rule ccontr)
    assume "\<not> binade (a + 1) \<le> 52"
    then have big: "53 \<le> binade (a + 1)" by simp
    then have "- 1022 < binade (a + 1)" by simp
    from binade_lower [OF pos this] have "2 powi binade (a + 1) \<le> a + 1" .
    moreover from lt have "a + 1 < 2 powi 53" by simp
    ultimately have "binade (a + 1) < 53" by (rule pow2_less_imp)
    with big show False by simp
  qed
  then have "ulp (a + 1) \<le> 2 powi 0"
    unfolding ulp_def by (intro power_int_increasing) simp_all
  then have "ulp (a + 1) \<le> 1" by simp
  with round64_error [OF pos] have "\<bar>round64 (a + 1) - (a + 1)\<bar> \<le> 1 / 2" by linarith
  then show ?thesis by linarith
qed

lemma getSubAlpha_binary64_ends:
  assumes lag: "0 \<le> lag" and bound: "(real N - 1) * lag \<le> 2 ^ 53 - 1" and i: "i < N"
  shows "getSubAlpha_binary64 (Num lag) (Num 0) i N = Num 0"
    and "getSubAlpha_binary64 (Num lag) (Num 1) i N = Num 1"
proof -
  let ?P = "(real N - 1) * lag"
  let ?a = "round64 ?P"
  let ?f = "round64 (?a + 1)"
  let ?Q = "lag * real i"
  let ?s = "round64 ?Q"
  let ?t = "round64 (?s + 1)"
  from i have N: "0 \<le> real N - 1" and iN: "real i \<le> real N - 1" by linarith+
  from N lag have P0: "0 \<le> ?P" by simp
  from lag have Q0: "0 \<le> ?Q" by simp
  from iN lag have "real i * lag \<le> ?P" by (rule mult_right_mono)
  then have QP: "?Q \<le> ?P" by (simp add: mult.commute)
  from round64_mono [OF P0 bound] have a1: "?a \<le> 2 ^ 53 - 1"
    by (simp only: round64_2_53_pred)
  have a0: "0 \<le> ?a" by (rule round64_nonneg [OF P0])
  from a1 have aP: "fl ?P = Num ?a" using a0 by (intro fl_finite) simp_all
  from a0 a1 have "0 \<le> ?a + 1" "?a + 1 \<le> 2 ^ 53" by simp_all
  from fl_small [OF this] have f: "fl (?a + 1) = Num ?f" "0 \<le> ?f" "?f \<le> 2 ^ 53" by simp_all
  have fa: "?a < ?f" by (rule round64_succ [OF a0 a1])
  have s0: "0 \<le> ?s" by (rule round64_nonneg [OF Q0])
  have sa: "?s \<le> ?a" by (rule round64_mono [OF Q0 QP])
  from s0 sa a1 have sQ: "fl ?Q = Num ?s" by (intro fl_finite) simp_all
  from s0 sa a1 have s1: "0 \<le> ?s + 1" "?s + 1 \<le> 2 ^ 53" by simp_all
  from fl_small [OF s1] have t: "fl (?s + 1) = Num ?t" by simp
  from sa have "?s + 1 \<le> ?a + 1" by simp
  from round64_mono [OF s1(1) this] have tf: "?t \<le> ?f" .
  have idem: "round64 ?f = ?f" by (rule round64_idem [OF \<open>0 \<le> ?a + 1\<close>])
  have "fl ?f = Num (round64 ?f)" by (rule fl_finite) (simp_all only: idem f)
  then have ff: "fl ?f = Num ?f" by (simp only: idem)
  have zero: "fl 0 = Num 0" by (simp add: fl_def round64_0)
  show "getSubAlpha_binary64 (Num lag) (Num 0) i N = Num 0"
    using s0 by (simp add: getSubAlpha_binary64_def Let_def aP f(1) sQ zero)
  show "getSubAlpha_binary64 (Num lag) (Num 1) i N = Num 1"
    using fa sa tf by (simp add: getSubAlpha_binary64_def Let_def aP f(1) sQ t ff)
qed


subsection \<open>Clamping and staggering\<close>

lemma getSubAlpha_zero_lag:
  "lagRatio anim = 0 \<Longrightarrow> 0 \<le> a \<Longrightarrow> a \<le> 1 \<Longrightarrow> getSubAlpha anim a i n = a"
  by (simp add: getSubAlpha_def Let_def)

lemma getSubAlpha_at_0:
  assumes "0 \<le> lagRatio anim"
  shows "getSubAlpha anim 0 i n = 0"
  using assms by (simp add: getSubAlpha_def Let_def)

lemma getSubAlpha_at_1:
  assumes lag: "0 \<le> lagRatio anim" and i: "i < n"
  shows "getSubAlpha anim 1 i n = 1"
proof -
  from i have "real i \<le> real n - 1" by linarith
  then have "real i * lagRatio anim \<le> (real n - 1) * lagRatio anim"
    using lag by (rule mult_right_mono)
  then have le: "lagRatio anim * real i \<le> (real n - 1) * lagRatio anim"
    by (simp add: mult.commute)
  then have "\<not> (real n - 1) * lagRatio anim + 1 \<le> lagRatio anim * real i"
    by linarith
  with le show ?thesis by (simp add: getSubAlpha_def Let_def)
qed

lemma map_index_const:
  assumes "\<And>i. i < length xs \<Longrightarrow> g i = c"
  shows "map (\<lambda>i. f (g i) (xs ! i)) [0 ..< length xs] = map (f c) xs"
proof (rule nth_equalityI)
  show "length (map (\<lambda>i. f (g i) (xs ! i)) [0 ..< length xs]) = length (map (f c) xs)"
    by simp
next
  fix i assume "i < length (map (\<lambda>i. f (g i) (xs ! i)) [0 ..< length xs])"
  then have "i < length xs" by simp
  then show "map (\<lambda>i. f (g i) (xs ! i)) [0 ..< length xs] ! i = map (f c) xs ! i"
    using assms by simp
qed

text \<open>
  Claim C5. \<open>Animation.interpolate\<close> never fails on an alpha outside \<open>[0, 1]\<close>: it
  replaces a value below 0 by 0 and a value above 1 by 1, and only then applies the rate
  function. In general the rate function is applied to alpha clamped to \<open>[0, 1]\<close>.
\<close>

theorem interpolate_clamps_alpha:
  "interpolate anim step args alpha =
     interpolateMobject anim step args (rateFunc anim (max 0 (min 1 alpha)))
   \<and> 0 \<le> max 0 (min 1 alpha) \<and> max 0 (min 1 alpha) \<le> 1
   \<and> (alpha < 0 \<longrightarrow>
        interpolate anim step args alpha = interpolateMobject anim step args (rateFunc anim 0))
   \<and> (1 < alpha \<longrightarrow>
        interpolate anim step args alpha = interpolateMobject anim step args (rateFunc anim 1))"
  by (auto simp add: interpolate_def Let_def max_def min_def)

theorem interpolate_clamps_alpha_witness:
  "interpolate \<lparr>rateFunc = (\<lambda>t. t * t), lagRatio = 0, runtime = 1\<rparr> (\<lambda>a (x::real). a + x) [10, 20] (- 3)
     = [10, 20]
   \<and> interpolate \<lparr>rateFunc = (\<lambda>t. t * t), lagRatio = 0, runtime = 1\<rparr> (\<lambda>a (x::real). a + x) [10, 20] 7
     = [11, 21]"
proof -
  let ?anim = "\<lparr>rateFunc = (\<lambda>t::real. t * t), lagRatio = 0, runtime = 1\<rparr>"
  let ?step = "\<lambda>(a::real) (x::real). a + x"
  have lo: "(- 3 :: real) < 0" and hi: "(1::real) < 7" by simp_all
  have "interpolate ?anim ?step [10, 20] (- 3) = interpolateMobject ?anim ?step [10, 20] (rateFunc ?anim 0)"
    using interpolate_clamps_alpha [of ?anim ?step "[10, 20]" "- 3"] lo by blast
  moreover have "interpolate ?anim ?step [10, 20] 7 = interpolateMobject ?anim ?step [10, 20] (rateFunc ?anim 1)"
    using interpolate_clamps_alpha [of ?anim ?step "[10, 20]" 7] hi by blast
  moreover have "interpolateMobject ?anim ?step [10, 20] (rateFunc ?anim 0) = [10, 20]"
    by (simp add: interpolateMobject_def getSubAlpha_def upt_rec)
  moreover have "interpolateMobject ?anim ?step [10, 20] (rateFunc ?anim 1) = [11, 21]"
    by (simp add: interpolateMobject_def getSubAlpha_def upt_rec)
  ultimately show ?thesis by simp
qed

text \<open>
  Claim C6. With \<open>lagRatio = 0\<close> the sub-alpha of every node \<open>i < N\<close> is the eased
  alpha itself, for every eased alpha in \<open>[0, 1]\<close>; so \<open>interpolateMobject\<close> hands the
  same alpha to every node.
\<close>

theorem getSubAlpha_lagRatio_zero:
  assumes "lagRatio anim = 0" and "0 \<le> easedAlpha" and "easedAlpha \<le> 1"
  shows "(\<forall>i < N. getSubAlpha anim easedAlpha i N = easedAlpha)
       \<and> interpolateMobject anim step args easedAlpha = map (step easedAlpha) args"
proof -
  have sub: "getSubAlpha anim easedAlpha i n = easedAlpha" for i n
    using assms by (rule getSubAlpha_zero_lag)
  have "interpolateMobject anim step args easedAlpha = map (step easedAlpha) args"
    unfolding interpolateMobject_def by (rule map_index_const) (rule sub)
  with sub show ?thesis by simp
qed

theorem getSubAlpha_lagRatio_zero_witness:
  "getSubAlpha \<lparr>rateFunc = (\<lambda>t. t), lagRatio = 0, runtime = 1\<rparr> (1 / 4) 2 3 = 1 / 4
   \<and> interpolateMobject \<lparr>rateFunc = (\<lambda>t. t), lagRatio = 0, runtime = 1\<rparr>
        (\<lambda>a (x::real). a * x) [4, 8, 12] (1 / 4) = [1, 2, 3]"
proof -
  let ?anim = "\<lparr>rateFunc = (\<lambda>t::real. t), lagRatio = 0, runtime = 1\<rparr>"
  have h: "lagRatio ?anim = 0" "(0::real) \<le> 1 / 4" "(1 / 4 :: real) \<le> 1" by simp_all
  from getSubAlpha_lagRatio_zero [OF h, of 3 "\<lambda>a (x::real). a * x" "[4, 8, 12]"]
  show ?thesis by simp
qed

text \<open>
  Claim C7. Three nodes, \<open>lagRatio = 0.5\<close>, so \<open>fullRuntime = 2\<close>. At the boundary
  \<open>scaled = 2 * easedAlpha = 1\<close> (eased alpha \<open>0.5\<close>) node 0 is exactly finished and
  node 2 is exactly at 0; and whenever node 2 has left 0, node 0 is at 1.
\<close>

theorem getSubAlpha_stagger_three_nodes:
  assumes "lagRatio anim = 1 / 2"
  shows "getSubAlpha anim (1 / 2) 0 3 = 1
       \<and> getSubAlpha anim (1 / 2) 2 3 = 0
       \<and> (0 < getSubAlpha anim a 2 3 \<longrightarrow> getSubAlpha anim a 0 3 = 1)"
  using assms by (auto simp add: getSubAlpha_def Let_def split: if_splits)

theorem getSubAlpha_stagger_three_nodes_witness:
  "getSubAlpha \<lparr>rateFunc = (\<lambda>t. t), lagRatio = 1 / 2, runtime = 1\<rparr> (1 / 2) 0 3 = 1
   \<and> getSubAlpha \<lparr>rateFunc = (\<lambda>t. t), lagRatio = 1 / 2, runtime = 1\<rparr> (1 / 2) 2 3 = 0
   \<and> getSubAlpha \<lparr>rateFunc = (\<lambda>t. t), lagRatio = 1 / 2, runtime = 1\<rparr> (3 / 4) 2 3 = 1 / 2
   \<and> getSubAlpha \<lparr>rateFunc = (\<lambda>t. t), lagRatio = 1 / 2, runtime = 1\<rparr> (3 / 4) 0 3 = 1"
proof -
  let ?anim = "\<lparr>rateFunc = (\<lambda>t::real. t), lagRatio = 1 / 2, runtime = 1\<rparr>"
  have h: "lagRatio ?anim = 1 / 2" by simp
  have moved: "getSubAlpha ?anim (3 / 4) 2 3 = 1 / 2"
    by (simp add: getSubAlpha_def)
  from getSubAlpha_stagger_three_nodes [OF h, of "3 / 4"] moved
  show ?thesis by simp
qed


text \<open>
  With the lag ratios 0 and \<open>0.5\<close> no operation of \<open>getSubAlpha\<close> rounds, so the
  binary64 computation returns what the computation over \<open>\<real>\<close> returns: with lag ratio
  0 every node gets the eased alpha itself (for every binary64 alpha in \<open>[0, 1]\<close>), and
  with three nodes and lag ratio \<open>0.5\<close> node 0 is at 1 and node 2 at 0 at the boundary,
  and node 0 is at 1 whenever node 2 is above 0.
\<close>

lemma getSubAlpha_binary64_lagRatio_zero:
  assumes "round64 a = a" "0 \<le> a" "a \<le> 1"
  shows "getSubAlpha_binary64 (Num 0) (Num a) i N = Num a"
proof -
  have "fl a = Num (round64 a)" using assms by (intro fl_finite) simp_all
  then have a: "fl a = Num a" using assms by simp
  show ?thesis
    using assms(2,3) by (simp add: getSubAlpha_binary64_def Let_def js_subtract_def fl_0 fl_1 a)
qed

lemma getSubAlpha_binary64_stagger_three_nodes:
  "getSubAlpha_binary64 (Num (1 / 2)) (Num (1 / 2)) 0 3 = Num 1
   \<and> getSubAlpha_binary64 (Num (1 / 2)) (Num (1 / 2)) 2 3 = Num 0"
  by (simp add: getSubAlpha_binary64_def fl_0 fl_1 fl_2)

lemma getSubAlpha_binary64_stagger_order:
  assumes "getSubAlpha_binary64 (Num (1 / 2)) alpha 2 3 = Num s" and "0 < s"
  shows "getSubAlpha_binary64 (Num (1 / 2)) alpha 0 3 = Num 1"
proof -
  define F where "F = js_multiply (Num 2) alpha"
  have two: "getSubAlpha_binary64 (Num (1 / 2)) alpha 2 3
               = (if js_le F (Num 1) then Num 0
                  else if js_le (Num 2) F then Num 1 else js_subtract F (Num 1))"
    by (simp add: getSubAlpha_binary64_def F_def fl_1 fl_2)
  have zero: "getSubAlpha_binary64 (Num (1 / 2)) alpha 0 3
               = (if js_le F (Num 0) then Num 0
                  else if js_le (Num 1) F then Num 1 else js_subtract F (Num 0))"
    by (simp add: getSubAlpha_binary64_def F_def fl_0 fl_1 fl_2)
  from assms two have "\<not> js_le F (Num 1)" and "F \<noteq> NaN"
    by (auto simp add: js_subtract_def split: if_splits)
  then have "\<not> js_le F (Num 0) \<and> js_le (Num 1) F"
    by (cases F) auto
  with zero show ?thesis by simp
qed

text \<open>
  Claim C10 says that the sub-alpha is 0 at eased alpha 0 and 1 at eased alpha 1 for
  every lag ratio \<open>\<ge> 0\<close>. In binary64 it is not. With the lag ratio \<open>2^53\<close> and two nodes,
  \<open>fullRuntime = 2^53 + 1\<close> rounds to \<open>2^53\<close>, which is the start time of node 1: at
  eased alpha 1 node 1 gets the sub-alpha 0, and \<open>interpolateMobject\<close> leaves it at its
  start state. With the lag ratio \<open>2^1023\<close> and three nodes, \<open>fullRuntime\<close> overflows to
  \<open>+Infinity\<close>, and at eased alpha 0 the sub-alpha of node 0 is \<open>Infinity * 0 = NaN\<close>.
  Both lag ratios are binary64 values.
\<close>

theorem getSubAlpha_binary64_endpoint_lost:
  "getSubAlpha_binary64 (Num (2 ^ 53)) (Num 1) 1 2 = Num 0
   \<and> getSubAlpha_binary64 (Num (2 ^ 1023)) (Num 0) 0 3 = NaN
   \<and> fl (2 ^ 53) = Num (2 ^ 53) \<and> fl (2 ^ 1023) = Num (2 ^ 1023)
   \<and> interpolateMobject_binary64 (Num (2 ^ 53)) (\<lambda>a (x::unit). a) [(), ()] (Num 1)
       = [Num 1, Num 0]"
proof -
  have n1: "getSubAlpha_binary64 (Num (2 ^ 53)) (Num 1) 1 2 = Num 0"
    using fl_2_53 fl_2_53_succ by (simp add: getSubAlpha_binary64_def)
  have n0: "getSubAlpha_binary64 (Num (2 ^ 53)) (Num 1) 0 2 = Num 1"
    using fl_2_53 fl_2_53_succ fl_0 fl_1 by (simp add: getSubAlpha_binary64_def)
  have "(2::real) * 2 ^ 1023 = 2 ^ 1024" by simp
  then have ov: "fl (2 * 2 ^ 1023) = PosInfinity" by (simp only: fl_2_1024)
  have nan: "getSubAlpha_binary64 (Num (2 ^ 1023)) (Num 0) 0 3 = NaN"
    unfolding getSubAlpha_binary64_def using ov fl_0 fl_1 by (simp add: js_subtract_def)
  have len: "length [(), ()] = 2" by simp
  have upt: "[0 ..< 2] = [0, 1]" by (simp add: upt_rec)
  have "interpolateMobject_binary64 (Num (2 ^ 53)) (\<lambda>a (x::unit). a) [(), ()] (Num 1)
          = [Num 1, Num 0]"
    unfolding interpolateMobject_binary64_def len upt using n0 n1 by simp
  with n1 nan fl_2_53 fl_2_1023 show ?thesis by simp
qed

text \<open>
  Claim C10, amended. For \<open>N \<ge> 1\<close> nodes, every index \<open>i < N\<close> and every lag ratio
  \<open>\<ge> 0\<close> with \<open>(N - 1) * lagRatio \<le> 2^53 - 1\<close>, the sub-alpha computed in binary64 is 0
  at eased alpha 0 and 1 at eased alpha 1; hence \<open>interpolateMobject\<close> runs every node's
  step with 0 at eased alpha 0 and with 1 at eased alpha 1. (Over \<open>\<real>\<close> the same holds
  for every lag ratio \<open>\<ge> 0\<close>, lemmas \<open>getSubAlpha_at_0\<close> and \<open>getSubAlpha_at_1\<close>.)
\<close>

theorem getSubAlpha_binary64_endpoints:
  assumes lag: "0 \<le> lag" and bound: "(real N - 1) * lag \<le> 2 ^ 53 - 1"
  shows "(\<forall>i < N. getSubAlpha_binary64 (Num lag) (Num 0) i N = Num 0
                \<and> getSubAlpha_binary64 (Num lag) (Num 1) i N = Num 1)
       \<and> (length args = N \<longrightarrow>
            interpolateMobject_binary64 (Num lag) step args (Num 0) = map (step (Num 0)) args
          \<and> interpolateMobject_binary64 (Num lag) step args (Num 1) = map (step (Num 1)) args)"
proof -
  note ends = getSubAlpha_binary64_ends [OF lag bound]
  have "interpolateMobject_binary64 (Num lag) step args (Num 0) = map (step (Num 0)) args"
    if "length args = N"
    unfolding interpolateMobject_binary64_def
    by (rule map_index_const) (simp add: ends(1) that)
  moreover have "interpolateMobject_binary64 (Num lag) step args (Num 1) = map (step (Num 1)) args"
    if "length args = N"
    unfolding interpolateMobject_binary64_def
    by (rule map_index_const) (simp add: ends(2) that)
  ultimately show ?thesis using ends by simp
qed

theorem getSubAlpha_binary64_endpoints_witness:
  "getSubAlpha_binary64 (Num (3602879701896397 / 18014398509481984)) (Num 0) 2 4 = Num 0
   \<and> getSubAlpha_binary64 (Num (3602879701896397 / 18014398509481984)) (Num 1) 2 4 = Num 1
   \<and> interpolateMobject_binary64 (Num (3602879701896397 / 18014398509481984))
        (\<lambda>a (x::nat). (a, x)) [5, 6, 7, 8] (Num 1)
       = [(Num 1, 5), (Num 1, 6), (Num 1, 7), (Num 1, 8)]"
proof -
  let ?lag = "3602879701896397 / 18014398509481984 :: real"
  have h1: "0 \<le> ?lag" by simp
  have h2: "(real 4 - 1) * ?lag \<le> 2 ^ 53 - 1" by simp
  have i: "(2::nat) < 4" by simp
  have len: "length [5, 6, 7, 8 :: nat] = 4" by simp
  from getSubAlpha_binary64_endpoints [OF h1 h2, of "[5, 6, 7, 8]" "\<lambda>a (x::nat). (a, x)"] i len
  show ?thesis by simp
qed

lemma length_getMobjectHeirarchy: "length (getMobjectHeirarchy m) \<noteq> 0"
  by (cases m) simp

lemma Math_min_PosInfinity: "Math_min PosInfinity b = b"
  by (cases b) simp_all

lemma lagRatio_default_finite:
  "\<exists>r. Math_min (lagRatioQuotient len) (fl (2 / 10)) = Num r
       \<and> 0 \<le> r \<and> r \<le> 3602879701896397 / 18014398509481984"
proof -
  let ?d = "3602879701896397 / 18014398509481984 :: real"
  show ?thesis
  proof (cases "len = 0")
    case True
    then have "Math_min (lagRatioQuotient len) (fl (2 / 10)) = Num ?d"
      unfolding fl_fifth by (simp add: lagRatioQuotient_def js_divide_def)
    then show ?thesis by (intro exI [of _ ?d]) simp
  next
    case False
    then have "1 \<le> real len" by simp
    then have "4 / real len \<le> 4" by (simp add: field_simps)
    then have "0 \<le> 4 / real len" "4 / real len \<le> 2 ^ 53" by simp_all
    from fl_small [OF this]
    have q: "fl (4 / real len) = Num (round64 (4 / real len))" "0 \<le> round64 (4 / real len)"
      by simp_all
    have "Math_min (lagRatioQuotient len) (fl (2 / 10)) = Num (min (round64 (4 / real len)) ?d)"
      unfolding fl_fifth using False by (simp add: lagRatioQuotient_def js_divide_def q(1))
    then show ?thesis
      using q(2) by (intro exI [of _ "min (round64 (4 / real len)) ?d"]) simp
  qed
qed

text \<open>
  Claim C9. A \<open>Write\<close> built with \<open>runtime = null\<close> and \<open>lagRatio = null\<close> on a hierarchy
  of length 0 gets well-defined defaults: the runtime is 2, the longer of the two default
  runtimes (every other length gets 1), and the lag ratio is the finite number \<open>0.2\<close>.
  The division is guarded in effect: for every length the default lag ratio is what the
  computation that skips the division at length 0 yields, a finite number in
  \<open>[0, 0.2]\<close>. A hierarchy is never of length 0 (it starts with the object itself), and
  over no nodes the per-node loop runs no step, so nothing is staggered.
\<close>

theorem Write_defaults_well_defined:
  "Write_constructor 0 None None
     = \<lparr>write_runtime = Some (Num 2),
        write_lagRatio = Some (Num (3602879701896397 / 18014398509481984))\<rparr>
   \<and> write_runtime (Write_constructor (Suc n) None None) = Some (Num 1)
   \<and> write_lagRatio (Write_constructor len None None)
       = Some (if len = 0 then fl (2 / 10) else Math_min (fl (4 / real len)) (fl (2 / 10)))
   \<and> (\<exists>r. write_lagRatio (Write_constructor len None None) = Some (Num r)
          \<and> 0 \<le> r \<and> r \<le> 3602879701896397 / 18014398509481984)
   \<and> length (getMobjectHeirarchy m) \<noteq> 0
   \<and> interpolateMobject anim step [] alpha = []"
proof -
  have cfg: "write_lagRatio (Write_constructor len None None)
               = Some (Math_min (lagRatioQuotient len) (fl (2 / 10)))" for len
    by (simp add: Write_constructor_def setConfigFromLength_def Let_def)
  have "Write_constructor 0 None None
          = \<lparr>write_runtime = Some (Num 2),
             write_lagRatio = Some (Num (3602879701896397 / 18014398509481984))\<rparr>"
    unfolding fl_fifth [symmetric]
    by (simp add: Write_constructor_def setConfigFromLength_def lagRatioQuotient_def
        js_divide_def Let_def Math_min_PosInfinity)
  moreover have "write_runtime (Write_constructor (Suc n) None None) = Some (Num 1)"
    by (simp add: Write_constructor_def setConfigFromLength_def Let_def)
  moreover have "write_lagRatio (Write_constructor len None None)
       = Some (if len = 0 then fl (2 / 10) else Math_min (fl (4 / real len)) (fl (2 / 10)))"
    unfolding cfg by (simp add: lagRatioQuotient_def js_divide_def Math_min_PosInfinity)
  moreover have "\<exists>r. write_lagRatio (Write_constructor len None None) = Some (Num r)
          \<and> 0 \<le> r \<and> r \<le> 3602879701896397 / 18014398509481984"
    using lagRatio_default_finite [of len] by (simp add: cfg)
  moreover have "interpolateMobject anim step [] alpha = []"
    by (simp add: interpolateMobject_def)
  ultimately show ?thesis using length_getMobjectHeirarchy [of m] by blast
qed

section \<open>Partial reveal: theorems\<close>




lemma concat_segment_quads: "concat (segment_quads vs) = segment_points vs"
  by (induction vs rule: segment_quads.induct) simp_all




























text \<open>
  Claim C8 says that for every sub-alpha above \<open>0.5\<close> the node's full geometry is present
  after the step of \<open>Write\<close>. The step completes the reveal only when the node's last
  vertex differs from the last vertex of the starting node. On a closed path the two
  coincide from the outset: \<open>begin()\<close> runs the step at 0, which leaves the two-vertex
  path on the first corner; the step at 1 then sets the fill opacity to 1 and keeps that
  path, while the full reveal has four vertices.
\<close>

theorem Write_interpolateSubmobject_closed_path_not_completed:
  "Write_interpolateSubmobject 0 (group_of closed_triangle) closed_triangle
     = Some degenerate_reveal
   \<and> Write_interpolateSubmobject 1 degenerate_reveal closed_triangle
     = Some (degenerate_reveal\<lparr>group_style := (group_style degenerate_reveal)\<lparr>fillOpacity := 1\<rparr>\<rparr>)
   \<and> map_option (\<lambda>p. length (vertices p)) (partialPath closed_triangle 0 1) = Some 4
   \<and> map_option (\<lambda>g. map (\<lambda>c. case child_vertices c of Some vs \<Rightarrow> length vs | None \<Rightarrow> 0)
                         (children g))
        (Write_interpolateSubmobject 1 degenerate_reveal closed_triangle) = Some [2]"
  by code_simp

section \<open>Alignment: theorems\<close>

lemma count_indices:
  assumes "\<forall>x \<in> set xs. x < n"
  shows "sum_list (map (\<lambda>i. length (filter (\<lambda>x. x = i) xs)) [0 ..< n]) = length xs"
  using assms
proof (induction xs)
  case Nil
  then show ?case by simp
next
  case (Cons x xs)
  have "sum_list (map (\<lambda>i. length (filter (\<lambda>y. y = i) (x # xs))) [0 ..< n])
      = sum_list (map (\<lambda>i. (if x = i then 1 else 0) + length (filter (\<lambda>y. y = i) xs)) [0 ..< n])"
    by (rule arg_cong [where f = sum_list]) simp
  also have "\<dots> = sum_list (map (\<lambda>i. if x = i then 1 else 0) [0 ..< n])
                   + sum_list (map (\<lambda>i. length (filter (\<lambda>y. y = i) xs)) [0 ..< n])"
    by (simp add: sum_list_addf)
  also have "sum_list (map (\<lambda>i. if x = i then 1 else 0) [0 ..< n]) = (1::nat)"
    using Cons.prems by (simp add: interv_sum_list_conv_sum_set_nat)
  finally show ?case using Cons by simp
qed

lemma repeatIndices_bound:
  assumes "0 < n" and "x \<in> set (repeatIndices n (n + k))"
  shows "x < n"
proof -
  from assms(2) obtain j where j: "j < n + k" and x: "x = j * n div (n + k)"
    by (auto simp add: repeatIndices_def)
  have "j * n < n * (n + k)" using j assms(1) by (simp add: mult.commute)
  then show ?thesis unfolding x using assms(1) by (simp add: div_less_iff_less_mult)
qed

lemma length_splitFactors: "length (splitFactors n t) = n"
  by (simp add: splitFactors_def)

lemma sum_splitFactors:
  assumes "0 < n"
  shows "sum_list (splitFactors n (n + k)) = n + k"
proof -
  have "\<forall>x \<in> set (repeatIndices n (n + k)). x < n"
    using repeatIndices_bound [OF assms] by blast
  then have "sum_list (splitFactors n (n + k)) = length (repeatIndices n (n + k))"
    unfolding splitFactors_def by (rule count_indices)
  then show ?thesis by (simp add: repeatIndices_def)
qed

lemma repeatIndices_onto:
  assumes "i < n"
  shows "i \<in> set (repeatIndices n (n + k))"
proof -
  define t where "t = n + k"
  define j where "j = (i * t + (n - 1)) div n"
  have n: "0 < n" using assms by simp
  have t: "n \<le> t" by (simp add: t_def)
  have up: "j * n \<le> i * t + (n - 1)"
    unfolding j_def by (rule div_times_less_eq_dividend)
  have "i * t + (n - 1) < n + j * n"
    unfolding j_def using n by (rule dividend_less_div_times)
  then have low: "i * t \<le> j * n" using n by linarith
  have "j * n < i * t + n" using up n by simp
  also have "\<dots> \<le> i * t + t" using t by simp
  finally have lt: "j * n < t * Suc i" by (simp add: algebra_simps)
  have "t * i \<le> j * n" using low by (simp add: mult.commute)
  then have eq: "j * n div t = i" using lt by (rule div_nat_eqI)
  have "Suc i \<le> n" using assms by simp
  then have "t * Suc i \<le> t * n" by (rule mult_le_mono2)
  with lt have "j * n < t * n" by (rule less_le_trans)
  then have "j < t" by simp
  with eq show ?thesis unfolding repeatIndices_def t_def by force
qed

lemma splitFactors_positive:
  assumes "i < n"
  shows "1 \<le> splitFactors n (n + k) ! i"
proof -
  have "filter (\<lambda>x. x = i) (repeatIndices n (n + k)) \<noteq> []"
    using repeatIndices_onto [OF assms, of k] by (auto simp add: filter_empty_conv)
  then have "0 < length (filter (\<lambda>x. x = i) (repeatIndices n (n + k)))"
    by simp
  then have "1 \<le> length (filter (\<lambda>x. x = i) (repeatIndices n (n + k)))" by linarith
  moreover have "splitFactors n (n + k) ! i = length (filter (\<lambda>x. x = i) (repeatIndices n (n + k)))"
    using assms by (simp add: splitFactors_def)
  ultimately show ?thesis by simp
qed

lemma splitFactors_card:
  assumes "i < n"
  shows "splitFactors n t ! i = card {j. j < t \<and> j * n div t = i}"
proof -
  have "splitFactors n t ! i = length (filter (\<lambda>j. j * n div t = i) [0 ..< t])"
    using assms by (simp add: splitFactors_def repeatIndices_def filter_map comp_def)
  also have "\<dots> = card (set (filter (\<lambda>j. j * n div t = i) [0 ..< t]))"
    by (rule distinct_card [symmetric]) simp
  also have "set (filter (\<lambda>j. j * n div t = i) [0 ..< t]) = {j. j < t \<and> j * n div t = i}"
    by auto
  finally show ?thesis .
qed


lemma submobjects_set_submobjects [simp]: "submobjects (set_submobjects subs m) = subs"
  by (simp add: set_submobjects_def)

lemma points_set_submobjects [simp]: "points (set_submobjects subs m) = points m"
  by (simp add: set_submobjects_def points_def)

lemma points_set_vertices [simp]: "points (set_vertices vs m) = vs"
  by (simp add: set_vertices_def points_def)

lemma submobjects_set_vertices [simp]: "submobjects (set_vertices vs m) = submobjects m"
  by (simp add: set_vertices_def)

lemma length_add_point_mobjects:
  "length (submobjects (((\<lambda>m. set_submobjects (submobjects m @ [getPointMobject m]) m) ^^ n) this))
     = length (submobjects this) + n"
  by (induction n) simp_all

lemma sum_list_map_nth_upt: "sum_list (map (\<lambda>i. xs ! i) [0 ..< length xs]) = sum_list xs"
  by (simp add: map_nth)

lemma length_addSubmobjects:
  "length (submobjects (addSubmobjects k this)) = length (submobjects this) + k"
proof (cases "length (submobjects this) = 0")
  case True
  then show ?thesis
    using length_add_point_mobjects [of k this] by (simp add: addSubmobjects_def)
next
  case False
  define n where "n = length (submobjects this)"
  have n: "0 < n" using False by (simp add: n_def)
  define factors where "factors = splitFactors n (n + k)"
  have pos: "Suc (factors ! i - 1) = factors ! i" if "i < n" for i
    using splitFactors_positive [OF that, of k] by (simp add: factors_def)
  have "length (submobjects (addSubmobjects k this))
      = sum_list (map (\<lambda>i. Suc (factors ! i - 1)) [0 ..< n])"
    using False
    by (simp add: addSubmobjects_def Let_def n_def [symmetric] factors_def [symmetric]
        length_concat comp_def)
  also have "\<dots> = sum_list (map (\<lambda>i. factors ! i) [0 ..< n])"
    using pos by (intro arg_cong [where f = sum_list] map_cong) simp_all
  also have "\<dots> = sum_list factors"
    using sum_list_map_nth_upt [of factors] by (simp add: factors_def length_splitFactors)
  also have "\<dots> = n + k" unfolding factors_def using n by (rule sum_splitFactors)
  finally show ?thesis by (simp add: n_def)
qed

lemma length_partialBezierPoints [simp]: "length (partialBezierPoints v w a b) = 4"
  by (simp add: partialBezierPoints_def bezier_points_def split: prod.splits)

lemma length_addPoints:
  assumes "length (points this) = Suc n" and "0 < n"
  shows "fst (addPoints k this) = this" and "length (snd (addPoints k this)) = 4 * (n + k)"
proof -
  define factors where "factors = splitFactors n (n + k)"
  from assms show "fst (addPoints k this) = this" by (simp add: addPoints_def Let_def)
  have "length (snd (addPoints k this))
      = sum_list (map (\<lambda>i. factors ! i * 4) [0 ..< n])"
    using assms
    by (simp add: addPoints_def Let_def factors_def [symmetric] length_concat comp_def
        sum_list_triv)
  also have "\<dots> = 4 * sum_list (map (\<lambda>i. factors ! i) [0 ..< n])"
    by (simp add: sum_list_mult_const mult.commute)
  also have "\<dots> = 4 * sum_list factors"
    using sum_list_map_nth_upt [of factors] by (simp add: factors_def length_splitFactors)
  also have "\<dots> = 4 * (n + k)"
    unfolding factors_def using assms(2) by (simp add: sum_splitFactors)
  finally show "length (snd (addPoints k this)) = 4 * (n + k)" .
qed

lemma fill_anchors_total:
  "length pts = 4 * m \<Longrightarrow> \<exists>as'. fill_anchors pts k as = Some as' \<and> length as' = length as"
proof (induction m arbitrary: pts k as)
  case 0
  then show ?case by simp
next
  case (Suc m)
  then obtain p0 p1 p2 p3 rest where pts: "pts = p0 # p1 # p2 # p3 # rest"
    by (cases pts; cases "tl pts"; cases "tl (tl pts)"; cases "tl (tl (tl pts))") auto
  define as1 where
    "as1 = (let anchors1 = as[k := (as ! k)\<lparr>position := p0, controls_right := p1\<rparr>]
            in anchors1[Suc k := (anchors1 ! Suc k)\<lparr>controls_left := p2, position := p3\<rparr>])"
  have step: "fill_anchors pts k as = fill_anchors rest (Suc k) as1"
    by (simp add: pts as1_def)
  have len: "length as1 = length as" by (simp add: as1_def Let_def)
  from pts Suc.prems have "length rest = 4 * m" by simp
  from Suc.IH [OF this, of "Suc k" as1] show ?case by (simp add: step len)
qed

lemma setAnchorsFromPoints_total:
  assumes "length pts = 4 * m"
  shows "\<exists>this'. setAnchorsFromPoints pts this = Some this' \<and> length (points this') = Suc m
           \<and> submobjects this' = submobjects this"
proof -
  from fill_anchors_total [OF assms] obtain as' where
    "fill_anchors pts 0 (replicate ((length pts + 3) div 4 + 1) fresh_anchor) = Some as'"
    "length as' = length (replicate ((length pts + 3) div 4 + 1) fresh_anchor)"
    by blast
  then show ?thesis using assms
    by (simp add: setAnchorsFromPoints_def anchors_from_points_def)
qed

text \<open>
  Claim C4. For \<open>n \<ge> 1\<close> existing items and \<open>k \<ge> 0\<close> extra ones, the split factors
  are \<open>n\<close> natural numbers, the one at \<open>i\<close> being the number of \<open>j < n + k\<close> with
  \<open>floor(j n / (n + k)) = i\<close>, and they sum to \<open>n + k\<close>. Hence \<open>addSubmobjects(k)\<close>
  takes a node from \<open>n\<close> to \<open>n + k\<close> submobjects, and \<open>addPoints(k)\<close> on a path of
  \<open>n\<close> curves (\<open>n + 1\<close> anchors) returns the points of \<open>n + k\<close> curves, from which
  \<open>setAnchorsFromPoints\<close> builds \<open>n + 1 + k\<close> anchors.
\<close>

theorem proportional_allocation_totals:
  assumes "1 \<le> n"
  shows "length (splitFactors n (n + k)) = n
       \<and> (\<forall>i < n. splitFactors n (n + k) ! i = card {j. j < n + k \<and> j * n div (n + k) = i})
       \<and> sum_list (splitFactors n (n + k)) = n + k
       \<and> (length (submobjects this) = n \<longrightarrow>
            length (submobjects (addSubmobjects k this)) = n + k)
       \<and> (length (points that) = Suc n \<longrightarrow>
            (\<exists>newPoints that'.
               addPoints k that = (that, newPoints)
             \<and> length newPoints = 4 * (n + k)
             \<and> setAnchorsFromPoints newPoints that = Some that'
             \<and> length (points that') = Suc n + k))"
proof -
  have n: "0 < n" using assms by simp
  have grow: "\<exists>newPoints that'.
               addPoints k that = (that, newPoints)
             \<and> length newPoints = 4 * (n + k)
             \<and> setAnchorsFromPoints newPoints that = Some that'
             \<and> length (points that') = Suc n + k"
    if len: "length (points that) = Suc n"
  proof -
    from length_addPoints [OF len n, of k]
    have a: "addPoints k that = (that, snd (addPoints k that))"
      and l: "length (snd (addPoints k that)) = 4 * (n + k)"
      by (simp_all add: prod_eq_iff)
    from setAnchorsFromPoints_total [OF l, of that] a l show ?thesis by auto
  qed
  show ?thesis
    using length_splitFactors [of n "n + k"] splitFactors_card [of _ n "n + k"]
      sum_splitFactors [OF n, of k] length_addSubmobjects [of k this] grow
    by simp
qed


theorem proportional_allocation_totals_witness:
  "length (splitFactors 3 (3 + 2)) = 3
   \<and> splitFactors 3 (3 + 2) ! 1 = card {j::nat. j < 3 + 2 \<and> j * 3 div (3 + 2) = 1}
   \<and> sum_list (splitFactors 3 (3 + 2)) = 3 + 2
   \<and> length (submobjects (addSubmobjects 2 three_triangles)) = 3 + 2
   \<and> (\<exists>newPoints that'.
         addPoints 2 closed_triangle = (closed_triangle, newPoints)
       \<and> length newPoints = 4 * (3 + 2)
       \<and> setAnchorsFromPoints newPoints closed_triangle = Some that'
       \<and> length (points that') = Suc 3 + 2)"
proof -
  have h: "1 \<le> (3::nat)" by simp
  have c: "length (submobjects three_triangles) = 3"
    by (simp add: three_triangles_def)
  have p: "length (points closed_triangle) = Suc 3"
    by (simp add: closed_triangle_def points_def)
  have i: "(1::nat) < 3" by simp
  from proportional_allocation_totals [OF h, of 2 three_triangles closed_triangle] c p i
  show ?thesis by blast
qed


subsection \<open>Heights and points through the steps\<close>

lemma fold_max_ge: "a \<le> fold max xs (a::nat)"
proof (induction xs arbitrary: a)
  case (Cons x xs)
  have "a \<le> max x a" by simp
  also have "\<dots> \<le> fold max xs (max x a)" by (rule Cons.IH)
  finally show ?case by simp
qed simp

lemma fold_max_mem: "x \<in> set xs \<Longrightarrow> x \<le> fold max xs (a::nat)"
proof (induction xs arbitrary: a)
  case (Cons y ys)
  show ?case
  proof (cases "x = y")
    case True
    have "y \<le> max y a" by simp
    also have "\<dots> \<le> fold max ys (max y a)" by (rule fold_max_ge)
    finally show ?thesis using True by simp
  next
    case False
    with Cons show ?thesis by simp
  qed
qed simp

lemma fold_max_le: "a \<le> b \<Longrightarrow> (\<forall>x \<in> set xs. x \<le> b) \<Longrightarrow> fold max xs (a::nat) \<le> b"
  by (induction xs arbitrary: a) simp_all

lemma height_child: "c \<in> set (submobjects m) \<Longrightarrow> height c < height m"
proof (cases m)
  case (Mobject fam st p subs)
  assume "c \<in> set (submobjects m)"
  then have c: "c \<in> set subs" using Mobject by simp
  then have "height c \<le> fold max (map height subs) 0" by (intro fold_max_mem) simp
  with c show ?thesis using Mobject by auto
qed

lemma height_0_iff: "height m = 0 \<longleftrightarrow> submobjects m = []"
  by (cases m) simp

lemma height_le: "(\<forall>c \<in> set (submobjects m). height c \<le> h) \<Longrightarrow> height m \<le> Suc h"
proof (cases m)
  case (Mobject fam st p subs)
  assume "\<forall>c \<in> set (submobjects m). height c \<le> h"
  then have "fold max (map height subs) 0 \<le> h" using Mobject by (intro fold_max_le) simp_all
  then show ?thesis using Mobject by simp
qed

lemma height_applyStyle [simp]: "height (applyStyle su m) = height m"
proof (induction su m rule: applyStyle.induct)
  case (1 su fam st p subs)
  show ?case
  proof (cases fam)
    case True
    with 1 have "map (height \<circ> applyStyle su) subs = map height subs" by simp
    with True show ?thesis by (simp del: map_eq_conv)
  next
    case False
    then show ?thesis by simp
  qed
qed

lemma points_applyStyle [simp]: "points (applyStyle su m) = points m"
  by (cases m) (simp add: points_def)

lemma path_applyStyle [simp]: "path (applyStyle su m) = path m"
  by (cases m) simp

lemma submobjects_applyStyle:
  "submobjects (applyStyle su m)
     = (if familyProto m then map (applyStyle su) (submobjects m) else submobjects m)"
  by (cases m) simp

lemma length_submobjects_applyStyle [simp]:
  "length (submobjects (applyStyle su m)) = length (submobjects m)"
  by (simp add: submobjects_applyStyle)

lemma submobjects_applyStyle_Nil [simp]:
  "submobjects (applyStyle su m) = [] \<longleftrightarrow> submobjects m = []"
  by (simp add: submobjects_applyStyle)

lemma new_Mobject_simps [simp]:
  "points (new_Mobject p) = vertices p" "submobjects (new_Mobject p) = []"
  "height (new_Mobject p) = 0" "path (new_Mobject p) = p"
  by (simp_all add: new_Mobject_def points_def)

lemma vertices_point_path [simp]: "length (vertices (pathFromAnchors [c] [c] [c])) = 1"
  by (simp add: pathFromAnchors_def)

lemma getPointMobject_simps [simp]:
  "length (points (getPointMobject m)) = 1" "submobjects (getPointMobject m) = []"
  "height (getPointMobject m) = 0"
  by (simp_all add: getPointMobject_def Let_def)

lemma clone_simp [simp]: "clone m = m"
  by (simp add: clone_def)

lemma pushSelfIntoSubmobjects_simps:
  "length (points (pushSelfIntoSubmobjects m)) = 1"
  "\<exists>cl. submobjects (pushSelfIntoSubmobjects m) = submobjects m @ [cl]
        \<and> height cl = 0 \<and> points cl = points m \<and> submobjects cl = []"
  by (simp_all add: pushSelfIntoSubmobjects_def Let_def points_def)


text \<open>What a submobject made by \<open>addSubmobjects\<close> can be.\<close>

lemma add_point_mobjects_children:
  assumes "c \<in> set (submobjects
            (((\<lambda>m. set_submobjects (submobjects m @ [getPointMobject m]) m) ^^ n) this))"
  shows "c \<in> set (submobjects this) \<or> (height c = 0 \<and> length (points c) = 1)"
  using assms by (induction n arbitrary: c) auto

lemma addSubmobjects_children:
  assumes "c \<in> set (submobjects (addSubmobjects n this))"
  shows "(\<exists>c0 \<in> set (submobjects this). height c = height c0 \<and> points c = points c0)
       \<or> (submobjects this = [] \<and> height c = 0 \<and> length (points c) = 1)"
proof (cases "length (submobjects this) = 0")
  case True
  with assms add_point_mobjects_children [of c n this] show ?thesis
    by (simp add: addSubmobjects_def)
next
  case False
  with assms obtain i where i: "i < length (submobjects this)"
    and c: "c = submobjects this ! i
          \<or> c = applyStyle
                 (empty_update\<lparr>new_strokeColor := Some (strokeColor (getStyleDict (submobjects this ! i))),
                                new_fillColor := Some (fillColor (getStyleDict (submobjects this ! i)))\<rparr>)
                 (submobjects this ! i)"
    by (auto simp add: addSubmobjects_def Let_def)
  from i have "submobjects this ! i \<in> set (submobjects this)" by simp
  moreover from c have "height c = height (submobjects this ! i)
      \<and> points c = points (submobjects this ! i)" by auto
  ultimately show ?thesis by blast
qed

lemma points_addSubmobjects [simp]: "points (addSubmobjects n this) = points this"
proof -
  have "points (((\<lambda>m. set_submobjects (submobjects m @ [getPointMobject m]) m) ^^ k) this)
          = points this" for k
    by (induction k) simp_all
  then show ?thesis by (simp add: addSubmobjects_def Let_def)
qed

lemma nullPointAlign_cases:
  obtains (push_other) "points this = []" "points other \<noteq> []"
      "nullPointAlign this other = (this, pushSelfIntoSubmobjects other)"
  | (push_this) "points other = []" "points this \<noteq> []"
      "nullPointAlign this other = (pushSelfIntoSubmobjects this, other)"
  | (same) "\<not> unbalanced this other" "nullPointAlign this other = (this, other)"
  by (auto simp add: nullPointAlign_def unbalanced_def)

lemma alignSubmobjects_cases:
  obtains (same) "length (submobjects this) = length (submobjects other)"
      "alignSubmobjects this other = (this, other)"
  | (grow_this) "length (submobjects this) < length (submobjects other)"
      "alignSubmobjects this other
         = (addSubmobjects (length (submobjects other) - length (submobjects this)) this, other)"
  | (grow_other) "length (submobjects other) < length (submobjects this)"
      "alignSubmobjects this other
         = (this, addSubmobjects (length (submobjects this) - length (submobjects other)) other)"
proof -
  consider "length (submobjects this) = length (submobjects other)"
    | "length (submobjects this) < length (submobjects other)"
    | "length (submobjects other) < length (submobjects this)"
    by linarith
  then show thesis
    by cases (auto simp add: alignSubmobjects_def intro: same grow_this grow_other)
qed


lemma alignSubmobjects_points:
  "points (fst (alignSubmobjects this other)) = points this"
  "points (snd (alignSubmobjects this other)) = points other"
  by (simp_all add: alignSubmobjects_def)

lemma alignSubmobjects_length:
  "length (submobjects (fst (alignSubmobjects this other)))
     = length (submobjects (snd (alignSubmobjects this other)))"
  by (cases this other rule: alignSubmobjects_cases) (simp_all add: length_addSubmobjects)

lemma setAnchorsFromPoints_submobjects:
  "setAnchorsFromPoints pts m = Some m' \<Longrightarrow> submobjects m' = submobjects m"
  by (auto simp add: setAnchorsFromPoints_def split: option.splits)

lemma addPoints_submobjects [simp]: "submobjects (fst (addPoints n m)) = submobjects m"
  by (simp add: addPoints_def Let_def)

lemma addPoints_submobjects_eq: "addPoints n m = (m', pts) \<Longrightarrow> submobjects m' = submobjects m"
  using addPoints_submobjects [of n m] by simp

lemma alignPoints_submobjects:
  assumes "alignPoints g this other = Some (this', other')"
  shows "submobjects this' = submobjects this" and "submobjects other' = submobjects other"
  using assms
  by (auto simp add: alignPoints_def Let_def split: if_splits prod.splits
      dest!: setAnchorsFromPoints_submobjects addPoints_submobjects_eq)


text \<open>The submobjects after the three steps, against the measure of the recursion.\<close>

lemma alignLevel_children:
  assumes lvl: "alignLevel g this other = Some (this', other')"
  defines "H \<equiv> max (height this) (height other)"
  shows "\<forall>c \<in> set (submobjects this') \<union> set (submobjects other'). height c \<le> H - 1"
    and "submobjects this = [] \<Longrightarrow> submobjects other = [] \<Longrightarrow>
         \<forall>c \<in> set (submobjects this') \<union> set (submobjects other'). points c \<noteq> []"
    and "submobjects this = [] \<Longrightarrow> submobjects other = [] \<Longrightarrow> \<not> unbalanced this other \<Longrightarrow>
         submobjects this' = []"
    and "length (submobjects this') = length (submobjects other')"
proof -
  obtain t1 o1 where n: "nullPointAlign this other = (t1, o1)" by (cases "nullPointAlign this other")
  obtain t2 o2 where s: "alignSubmobjects t1 o1 = (t2, o2)" by (cases "alignSubmobjects t1 o1")
  from lvl have p: "alignPoints g t2 o2 = Some (this', other')"
    by (simp add: alignLevel_def n s)
  have sub': "submobjects this' = submobjects t2" "submobjects other' = submobjects o2"
    using alignPoints_submobjects [OF p] by simp_all
  text \<open>after the null-point step\<close>
  have low: "height c \<le> H - 1" if "c \<in> set (submobjects this) \<union> set (submobjects other)" for c
  proof -
    from that have "height c < H"
      unfolding H_def using height_child [of c this] height_child [of c other]
      by (auto simp add: less_max_iff_disj)
    then show ?thesis by simp
  qed
  have t1: "\<forall>c \<in> set (submobjects t1). height c \<le> H - 1"
    and o1: "\<forall>c \<in> set (submobjects o1). height c \<le> H - 1"
    using n low pushSelfIntoSubmobjects_simps(2) [of this] pushSelfIntoSubmobjects_simps(2) [of other]
    by (cases this other rule: nullPointAlign_cases; auto)+
  have t2: "\<forall>c \<in> set (submobjects t2). height c \<le> H - 1"
    and o2: "\<forall>c \<in> set (submobjects o2). height c \<le> H - 1"
    using s t1 o1 addSubmobjects_children [of _ _ t1] addSubmobjects_children [of _ _ o1]
    by (cases t1 o1 rule: alignSubmobjects_cases; fastforce)+
  from t2 o2 show "\<forall>c \<in> set (submobjects this') \<union> set (submobjects other'). height c \<le> H - 1"
    by (auto simp add: sub')
  show "length (submobjects this') = length (submobjects other')"
    using alignSubmobjects_length [of t1 o1] by (simp add: sub' s)
  {
    assume leaf: "submobjects this = []" "submobjects other = []"
    have t1p: "\<forall>c \<in> set (submobjects t1). points c \<noteq> []"
      and o1p: "\<forall>c \<in> set (submobjects o1). points c \<noteq> []"
      using n leaf pushSelfIntoSubmobjects_simps(2) [of this]
        pushSelfIntoSubmobjects_simps(2) [of other]
      by (cases this other rule: nullPointAlign_cases; auto)+
    have "\<forall>c \<in> set (submobjects t2). points c \<noteq> []"
      and "\<forall>c \<in> set (submobjects o2). points c \<noteq> []"
      using s t1p o1p addSubmobjects_children [of _ _ t1] addSubmobjects_children [of _ _ o1]
      by (cases t1 o1 rule: alignSubmobjects_cases; fastforce)+
    then show "\<forall>c \<in> set (submobjects this') \<union> set (submobjects other'). points c \<noteq> []"
      by (auto simp add: sub')
    assume "\<not> unbalanced this other"
    then have "nullPointAlign this other = (this, other)"
      by (auto simp add: nullPointAlign_def unbalanced_def)
    with n have "t1 = this" "o1 = other" by simp_all
    with s leaf have "t2 = this" by (simp add: alignSubmobjects_def)
    with leaf show "submobjects this' = []" by (simp add: sub')
  }
qed

lemma alignLevel_measure:
  assumes lvl: "alignLevel g this other = Some (this', other')"
    and mem: "(a, b) \<in> set (zip (submobjects this') (submobjects other'))"
  shows "alignMeasure a b < alignMeasure this other"
proof -
  define H where "H = max (height this) (height other)"
  from mem have a: "a \<in> set (submobjects this')" and b: "b \<in> set (submobjects other')"
    by (auto dest: set_zip_leftD set_zip_rightD)
  from alignLevel_children(1) [OF lvl] a b
  have ha: "height a \<le> H - 1" and hb: "height b \<le> H - 1" by (auto simp add: H_def)
  show ?thesis
  proof (cases "H = 0")
    case False
    have m: "max (height a) (height b) \<le> H - 1" using ha hb by simp
    have "alignMeasure a b \<le> 2 * max (height a) (height b) + 1"
      unfolding alignMeasure_def by simp
    also have "\<dots> \<le> 2 * (H - 1) + 1" using m by linarith
    finally have "alignMeasure a b \<le> 2 * (H - 1) + 1" .
    also have "\<dots> < 2 * H" using False by simp
    also have "\<dots> \<le> alignMeasure this other" by (simp add: alignMeasure_def H_def)
    finally show ?thesis .
  next
    case True
    then have leaf: "submobjects this = []" "submobjects other = []"
      by (simp_all add: H_def height_0_iff)
    from alignLevel_children(2) [OF lvl leaf] a b
    have "points a \<noteq> []" "points b \<noteq> []" by auto
    then have "alignMeasure a b = 0"
      using ha hb True by (simp add: alignMeasure_def unbalanced_def)
    moreover have "unbalanced this other"
    proof (rule ccontr)
      assume "\<not> unbalanced this other"
      with alignLevel_children(3) [OF lvl leaf] have "submobjects this' = []" by simp
      with a show False by simp
    qed
    ultimately show ?thesis by (simp add: alignMeasure_def)
  qed
qed

text \<open>\<open>alignData\<close> terminates: every recursive call is on a pair of smaller measure.\<close>

termination alignData
proof (relation "measure (\<lambda>(g, this, other). alignMeasure this other)")
  show "wf (measure (\<lambda>(g, this, other). alignMeasure this other))" by simp
next
  fix g this other x2 x y z xa ya
  assume "alignLevel g this other = Some x2" "(x, y) = x2"
    "z \<in> set (zip (submobjects x) (submobjects y))" "(xa, ya) = z"
  then show "((g, xa, ya), (g, this, other)) \<in> measure (\<lambda>(g, this, other). alignMeasure this other)"
    using alignLevel_measure [of g this other x y xa ya] by auto
qed


lemma alignPoints_equal:
  "length (points this) = length (points other) \<Longrightarrow> alignPoints g this other = Some (this, other)"
  by (simp add: alignPoints_def)

lemma alignPoints_nonempty:
  assumes "points this \<noteq> []" and "points other \<noteq> []"
    and "length (points this) \<noteq> length (points other)"
  shows "alignPoints g this other =
     (if length (points this) < length (points other)
      then map_option (\<lambda>f. (f, other)) (grow (length (points other) - length (points this)) this)
      else map_option (\<lambda>f. (this, f)) (grow (length (points this) - length (points other)) other))"
  using assms by (simp add: alignPoints_def grow_def Let_def split: prod.splits)

lemma alignPoints_seed_this:
  assumes "points this = []" and "points other \<noteq> []"
  shows "alignPoints g this other =
     (if 1 < length (points other)
      then map_option (\<lambda>f. (f, other))
             (grow (length (points other) - 1) (set_vertices [pixel_anchor (g this)] this))
      else map_option (\<lambda>f. (set_vertices [pixel_anchor (g this)] this, f))
             (grow (1 - length (points other)) other))"
  using assms by (simp add: alignPoints_def grow_def Let_def split: prod.splits)

lemma alignPoints_seed_other:
  assumes "points other = []" and "points this \<noteq> []"
  shows "alignPoints g this other =
     map_option (\<lambda>f. (this, f))
       (grow (length (points this) - 1) (set_vertices [pixel_anchor (g this)] other))"
  using assms by (simp add: alignPoints_def grow_def Let_def split: prod.splits)

lemma addPoints_single:
  assumes "length (points this) = 1"
  shows "addPoints n this = (set_vertices (points this @ replicate n (points this ! 0)) this, [])"
  using assms by (simp add: addPoints_def Let_def)

lemma set_vertices_twice [simp]: "set_vertices vs (set_vertices ws m) = set_vertices vs m"
  by (simp add: set_vertices_def)

lemma set_vertices_points: "points m = vs \<Longrightarrow> set_vertices vs m = m"
  by (cases m) (simp add: set_vertices_def points_def)

lemma anchors_from_no_points: "anchors_from_points [] = Some [fresh_anchor]"
  by (simp add: anchors_from_points_def)

lemma setAnchorsFromPoints_Nil: "setAnchorsFromPoints [] m = Some (set_vertices [fresh_anchor] m)"
  by (simp add: setAnchorsFromPoints_def anchors_from_no_points)

text \<open>Growing the side with fewer points: what \<open>addPoints\<close> and \<open>setAnchorsFromPoints\<close> leave.\<close>

lemma grow_fewer:
  assumes "points fewer \<noteq> []"
  shows "\<exists>fewer'. grow k fewer = Some fewer'
           \<and> submobjects fewer' = submobjects fewer
           \<and> (if length (points fewer) = 1 then fewer' = set_vertices [fresh_anchor] fewer
               else length (points fewer') = length (points fewer) + k)"
proof (cases "length (points fewer) = 1")
  case True
  then show ?thesis by (simp add: grow_def addPoints_single setAnchorsFromPoints_Nil)
next
  case False
  with assms obtain n where n: "length (points fewer) = Suc n" "0 < n"
    by (cases "length (points fewer)") auto
  from length_addPoints [OF n, of k] obtain pts where
    a: "addPoints k fewer = (fewer, pts)" and l: "length pts = 4 * (n + k)"
    by (cases "addPoints k fewer") simp
  from setAnchorsFromPoints_total [OF l, of fewer] obtain fewer' where
    "setAnchorsFromPoints pts fewer = Some fewer'"
    "length (points fewer') = Suc (n + k)" "submobjects fewer' = submobjects fewer"
    by blast
  then show ?thesis using False n by (simp add: grow_def a)
qed

lemma length_gt_1: "xs \<noteq> [] \<Longrightarrow> length xs \<noteq> Suc 0 \<Longrightarrow> Suc 0 < length xs"
  by (cases xs) auto

lemma alignPoints_result:
  "\<exists>this' other'. alignPoints g this other = Some (this', other')
     \<and> submobjects this' = submobjects this \<and> submobjects other' = submobjects other
     \<and> pointsSettled this' other'"
proof -
  consider (eq) "length (points this) = length (points other)"
    | (seed_this) "points this = []" "points other \<noteq> []"
    | (seed_other) "points other = []" "points this \<noteq> []"
    | (ne) "points this \<noteq> []" "points other \<noteq> []"
        "length (points this) \<noteq> length (points other)"
    by (cases "points this = []"; cases "points other = []") auto
  then show ?thesis
  proof cases
    case eq
    then show ?thesis by (simp add: alignPoints_equal pointsSettled_def)
  next
    case ne
    then have pos: "0 < length (points this)" "0 < length (points other)" by simp_all
    show ?thesis
    proof (cases "length (points this) < length (points other)")
      case True
      from grow_fewer [OF ne(1), of "length (points other) - length (points this)"] True ne pos
      show ?thesis
        by (auto simp add: alignPoints_nonempty pointsSettled_def split: if_splits
            intro: length_gt_1)
    next
      case False
      from grow_fewer [OF ne(2), of "length (points this) - length (points other)"] False ne pos
      show ?thesis
        by (auto simp add: alignPoints_nonempty pointsSettled_def split: if_splits
            intro: length_gt_1)
    qed
  next
    case seed_this
    define t1 where "t1 = set_vertices [pixel_anchor (g this)] this"
    have t1: "points t1 = [pixel_anchor (g this)]" "submobjects t1 = submobjects this"
      by (simp_all add: t1_def)
    show ?thesis
    proof (cases "1 < length (points other)")
      case True
      have "points t1 \<noteq> []" by (simp add: t1)
      from grow_fewer [OF this, of "length (points other) - 1"] True t1 seed_this
      show ?thesis
        by (auto simp add: alignPoints_seed_this t1_def [symmetric] pointsSettled_def)
    next
      case False
      with seed_this have one: "length (points other) = 1"
        by (cases "points other") auto
      from grow_fewer [OF seed_this(2), of "1 - length (points other)"] one t1 seed_this
      show ?thesis
        by (auto simp add: alignPoints_seed_this t1_def [symmetric] pointsSettled_def)
    qed
  next
    case seed_other
    define o1 where "o1 = set_vertices [pixel_anchor (g this)] other"
    have o1: "points o1 = [pixel_anchor (g this)]" "submobjects o1 = submobjects other"
      by (simp_all add: o1_def)
    have "points o1 \<noteq> []" by (simp add: o1)
    from grow_fewer [OF this, of "length (points this) - 1"] o1 seed_other
    show ?thesis
      by (cases "length (points this) = 1")
        (auto simp add: alignPoints_seed_other o1_def [symmetric] pointsSettled_def
          intro: Suc_lessI)
  qed
qed

lemma pointsSettled_balanced: "pointsSettled this other \<Longrightarrow> \<not> unbalanced this other"
  by (auto simp add: pointsSettled_def unbalanced_def)

lemma alignPoints_settled:
  assumes "pointsSettled this other"
  shows "alignPoints g this other = Some (this, other)"
proof (cases "length (points this) = length (points other)")
  case True
  then show ?thesis by (simp add: alignPoints_def)
next
  case False
  with assms consider
      (l) "points this = [fresh_anchor]" "1 < length (points other)"
    | (r) "points other = [fresh_anchor]" "1 < length (points this)"
    by (auto simp add: pointsSettled_def)
  then show ?thesis
  proof cases
    case l
    then have fx: "set_vertices [fresh_anchor] this = this" by (intro set_vertices_points) simp
    from l have ne: "points this \<noteq> []" "points other \<noteq> []" by auto
    from l have one: "length (points this) = 1" by simp
    show ?thesis
      unfolding alignPoints_nonempty [OF ne False]
      using l fx ne by (simp add: grow_def addPoints_single [OF one] setAnchorsFromPoints_Nil)
  next
    case r
    then have fx: "set_vertices [fresh_anchor] other = other" by (intro set_vertices_points) simp
    from r have ne: "points this \<noteq> []" "points other \<noteq> []" by auto
    from r have one: "length (points other) = 1" by simp
    show ?thesis
      unfolding alignPoints_nonempty [OF ne False]
      using r fx ne by (simp add: grow_def addPoints_single [OF one] setAnchorsFromPoints_Nil)
  qed
qed


declare alignData.simps [simp del]

lemma pointsSettled_set_submobjects [simp]:
  "pointsSettled (set_submobjects cs this) (set_submobjects ds other) = pointsSettled this other"
  by (simp add: pointsSettled_def)

lemma set_submobjects_twice [simp]:
  "set_submobjects cs (set_submobjects ds m) = set_submobjects cs m"
  by (simp add: set_submobjects_def)

lemma alignLevel_result:
  "\<exists>this' other'. alignLevel g this other = Some (this', other')
     \<and> length (submobjects this') = length (submobjects other')
     \<and> pointsSettled this' other'"
proof -
  obtain t1 o1 where n: "nullPointAlign this other = (t1, o1)" by (cases "nullPointAlign this other")
  obtain t2 o2 where s: "alignSubmobjects t1 o1 = (t2, o2)" by (cases "alignSubmobjects t1 o1")
  from alignSubmobjects_length [of t1 o1] s
  have "length (submobjects t2) = length (submobjects o2)" by simp
  with alignPoints_result [of g t2 o2] show ?thesis
    by (auto simp add: alignLevel_def n s)
qed

lemma alignLevel_settled:
  assumes "pointsSettled this other"
    and "length (submobjects this) = length (submobjects other)"
  shows "alignLevel g this other = Some (this, other)"
proof -
  from assms(1) have "\<not> unbalanced this other" by (rule pointsSettled_balanced)
  then have "nullPointAlign this other = (this, other)"
    by (auto simp add: nullPointAlign_def unbalanced_def)
  moreover from assms(2) have "alignSubmobjects this other = (this, other)"
    by (simp add: alignSubmobjects_def)
  ultimately show ?thesis
    using alignPoints_settled [OF assms(1), of g] by (simp add: alignLevel_def)
qed

lemma those_map_Some:
  assumes "\<forall>x \<in> set xs. \<exists>y. f x = Some y"
  shows "those (map f xs) = Some (map (\<lambda>x. the (f x)) xs)"
  using assms by (induction xs) auto

text \<open>
  The result of \<open>alignData\<close>, in terms of the level step and the aligned pairs of
  submobjects.
\<close>

lemma alignData_unfold:
  assumes lvl: "alignLevel g this other = Some (this1, other1)"
    and len: "length (submobjects this1) = length (submobjects other1)"
    and rec: "those (map (\<lambda>(mob, mob'). alignData g mob mob')
                       (zip (submobjects this1) (submobjects other1))) = Some aligned"
  shows "alignData g this other
           = Some (set_submobjects (map fst aligned) this1,
                   set_submobjects (map snd aligned) other1)"
  by (subst alignData.simps) (simp add: lvl len rec)

lemma alignData_aligns:
  "\<exists>this' other' this1 other1.
      alignData g this other = Some (this', other')
    \<and> alignLevel g this other = Some (this1, other1)
    \<and> length (submobjects this1) = length (submobjects other1)
    \<and> those (map (\<lambda>(mob, mob'). alignData g mob mob')
               (zip (submobjects this1) (submobjects other1)))
         = Some (zip (submobjects this') (submobjects other'))
    \<and> length (submobjects this') = length (submobjects other')
    \<and> sameCounts this' other'
    \<and> pointsSettled this' other'
    \<and> alignData g this' other' = Some (this', other')"
proof (induction g this other rule: alignData.induct)
  case (1 g this other)
  from alignLevel_result [of g this other] obtain this1 other1 where
    lvl: "alignLevel g this other = Some (this1, other1)"
    and len: "length (submobjects this1) = length (submobjects other1)"
    and settled: "pointsSettled this1 other1"
    by blast
  define pairs where "pairs = zip (submobjects this1) (submobjects other1)"
  define aligned where "aligned = map (\<lambda>(mob, mob'). the (alignData g mob mob')) pairs"
  have IH: "\<exists>a' b'. alignData g a b = Some (a', b') \<and> sameCounts a' b'
              \<and> alignData g a' b' = Some (a', b')"
    if "(a, b) \<in> set pairs" for a b
  proof -
    have "\<not> length (submobjects other1) < length (submobjects this1)" using len by simp
    from "1.IH" [OF lvl refl this that [unfolded pairs_def] refl] show ?thesis by blast
  qed
  have "\<forall>z \<in> set pairs. \<exists>r. (case z of (mob, mob') \<Rightarrow> alignData g mob mob') = Some r"
    using IH by fastforce
  then have "those (map (\<lambda>(mob, mob'). alignData g mob mob') pairs)
               = Some (map (\<lambda>z. the (case z of (mob, mob') \<Rightarrow> alignData g mob mob')) pairs)"
    by (rule those_map_Some)
  also have "map (\<lambda>z. the (case z of (mob, mob') \<Rightarrow> alignData g mob mob')) pairs = aligned"
    by (simp add: aligned_def case_prod_unfold)
  finally have rec: "those (map (\<lambda>(mob, mob'). alignData g mob mob') pairs) = Some aligned" .
  define this' where "this' = set_submobjects (map fst aligned) this1"
  define other' where "other' = set_submobjects (map snd aligned) other1"
  have res: "alignData g this other = Some (this', other')"
    unfolding this'_def other'_def
    using lvl len rec [unfolded pairs_def] by (rule alignData_unfold)
  have zip': "zip (submobjects this') (submobjects other') = aligned"
    by (simp add: this'_def other'_def zip_map_fst_snd)
  have len': "length (submobjects this') = length (submobjects other')"
    by (simp add: this'_def other'_def)
  have each: "sameCounts a' b' \<and> alignData g a' b' = Some (a', b')"
    if "(a', b') \<in> set aligned" for a' b'
  proof -
    from that obtain a b where ab: "(a, b) \<in> set pairs" and eq: "(a', b') = the (alignData g a b)"
      by (auto simp add: aligned_def)
    from IH [OF ab] eq show ?thesis by auto
  qed
  have counts: "sameCounts this' other'"
    by (subst sameCounts.simps) (auto simp add: len' zip' list_all_iff each)
  have lvl': "alignLevel g this' other' = Some (this', other')"
    using settled len' by (intro alignLevel_settled) (simp add: this'_def other'_def)
  have "\<forall>z \<in> set aligned. (case z of (mob, mob') \<Rightarrow> alignData g mob mob') = Some z"
    using each by auto
  then have m: "map (\<lambda>(mob, mob'). alignData g mob mob') aligned = map Some aligned"
    by (intro map_cong) auto
  have t: "those (map Some xs) = Some xs" for xs :: "(mobject \<times> mobject) list"
    by (induction xs) simp_all
  have rec': "those (map (\<lambda>(mob, mob'). alignData g mob mob')
      (zip (submobjects this') (submobjects other'))) = Some aligned"
    unfolding zip' m by (rule t)
  have "alignData g this' other'
          = Some (set_submobjects (map fst aligned) this', set_submobjects (map snd aligned) other')"
    using lvl' len' rec' by (rule alignData_unfold)
  then have again: "alignData g this' other' = Some (this', other')"
    by (simp add: this'_def other'_def)
  have settled': "pointsSettled this' other'"
    using settled by (simp add: this'_def other'_def)
  show ?case
    using res lvl len rec [unfolded pairs_def] zip' len' counts settled' again by auto
qed



text \<open>
  Claim C1. \<open>alignData(x, y)\<close> always returns, and afterwards \<open>x\<close> and \<open>y\<close> have the
  same number of submobjects. The three steps at the current level leave the two nodes
  with equally many submobjects, and the recursion runs exactly on the pairs of
  corresponding submobjects of these two nodes; so the counts agree at every level of the
  two resulting trees.
\<close>

theorem alignData_equal_submobject_counts:
  "\<exists>this' other' this1 other1.
      alignData g this other = Some (this', other')
    \<and> alignLevel g this other = Some (this1, other1)
    \<and> length (submobjects this1) = length (submobjects other1)
    \<and> those (map (\<lambda>(mob, mob'). alignData g mob mob')
               (zip (submobjects this1) (submobjects other1)))
         = Some (zip (submobjects this') (submobjects other'))
    \<and> length (submobjects this') = length (submobjects other')
    \<and> sameCounts this' other'"
  using alignData_aligns [of g this other] by blast

theorem alignData_equal_submobject_counts_witness:
  "\<exists>this' other'.
      alignData (\<lambda>m. (0, 0)) closed_triangle three_triangles = Some (this', other')
    \<and> length (submobjects this') = 3 \<and> length (submobjects other') = 3
    \<and> sameCounts this' other'"
proof -
  from alignData_equal_submobject_counts [of "\<lambda>m. (0, 0)" closed_triangle three_triangles]
  obtain this' other' where
    r: "alignData (\<lambda>m. (0, 0)) closed_triangle three_triangles = Some (this', other')"
    and c: "sameCounts this' other'"
    by blast
  have "map_option (\<lambda>(a, b). (length (submobjects a), length (submobjects b)))
          (alignData (\<lambda>m. (0, 0)) closed_triangle three_triangles) = Some (3, 3)"
    by code_simp
  with r c show ?thesis by simp
qed

text \<open>
  Claim C3. Running \<open>alignData\<close> on the pair it has produced returns that pair
  unchanged: nothing is pushed into a new submobject, no submobject is added and no path
  changes its points, at the top level and, the result being the same pair of trees, at
  every level below.
\<close>

theorem alignData_idempotent:
  "\<exists>this' other'.
      alignData g this other = Some (this', other')
    \<and> alignData g this' other' = Some (this', other')
    \<and> nullPointAlign this' other' = (this', other')
    \<and> alignSubmobjects this' other' = (this', other')
    \<and> alignPoints g this' other' = Some (this', other')"
proof -
  from alignData_aligns [of g this other] obtain this' other' where
    r: "alignData g this other = Some (this', other')"
    and len: "length (submobjects this') = length (submobjects other')"
    and settled: "pointsSettled this' other'"
    and again: "alignData g this' other' = Some (this', other')"
    by blast
  from settled have "\<not> unbalanced this' other'" by (rule pointsSettled_balanced)
  then have "nullPointAlign this' other' = (this', other')"
    by (auto simp add: nullPointAlign_def unbalanced_def)
  moreover from len have "alignSubmobjects this' other' = (this', other')"
    by (simp add: alignSubmobjects_def)
  moreover have "alignPoints g this' other' = Some (this', other')"
    using settled by (rule alignPoints_settled)
  ultimately show ?thesis using r again by blast
qed

theorem alignData_idempotent_witness:
  "\<exists>this' other'.
      alignData (\<lambda>m. (0, 0)) three_triangles closed_triangle = Some (this', other')
    \<and> alignData (\<lambda>m. (0, 0)) this' other' = Some (this', other')
    \<and> length (submobjects this') = 3 \<and> length (points this') = 1
    \<and> length (submobjects other') = 3 \<and> length (points other') = 1"
proof -
  from alignData_idempotent [of "\<lambda>m. (0, 0)" three_triangles closed_triangle]
  obtain this' other' where
    r: "alignData (\<lambda>m. (0, 0)) three_triangles closed_triangle = Some (this', other')"
    and again: "alignData (\<lambda>m. (0, 0)) this' other' = Some (this', other')"
    by blast
  have "map_option (\<lambda>(a, b). (length (submobjects a), length (points a),
                                length (submobjects b), length (points b)))
          (alignData (\<lambda>m. (0, 0)) three_triangles closed_triangle) = Some (3, 1, 3, 1)"
    by code_simp
  with r again show ?thesis by simp
qed

end
